theory Spec2Isabelle
  imports Main "HOL-Library.Multiset"
begin

section \<open>Data model\<close>

text \<open>
  An edge is the Python tuple \<open>(u, v, w)\<close>: origin, destination, weight. Vertices and
  weights are Python integers, hence unbounded.
\<close>

type_synonym edge = "int \<times> int \<times> int"

text \<open>
  The exceptions the class can raise: the \<open>ValueError\<close> of \<open>_validate_dag\<close> (the graph is
  not acyclic), a \<open>KeyError\<close> of a plain dictionary read at a missing key, and the
  \<open>ValueError\<close> of \<open>max\<close> applied to an empty collection.
\<close>

datatype error = CycleDetected | KeyError int | MaxOfEmpty

text \<open>
  The object state. \<open>self.vertices\<close> is a Python set; the program iterates it three
  times (twice in \<open>_validate_dag\<close>, once in \<open>propose_vprime_insertion\<close>) and the language
  fixes no iteration order, only that an unmodified set is always traversed in the same
  sequence. The field \<open>vertices\<close> therefore holds the set as the sequence in which it is
  traversed, and that sequence is an input of the constructor.
  \<open>self.adj\<close> and \<open>self.rev_adj\<close> are filled once from the edge list by the constructor
  and never written again; they are the functions \<open>adj\<close> and \<open>rev_adj\<close> below.
\<close>

record dag =
  edges :: "edge list"
  src :: int
  vertices :: "int list"
  topo :: "int list"

section \<open>Construction\<close>

text \<open>
  \<open>defaultdict(list)\<close> is a total function with default \<open>[]\<close>; the first loop of
  \<open>__init__\<close> appends \<open>(v, w)\<close> to \<open>adj[u]\<close> and \<open>(u, w)\<close> to \<open>rev_adj[v]\<close>.
\<close>

definition build_adj :: "edge list \<Rightarrow> int \<Rightarrow> (int \<times> int) list" where
  "build_adj es = fold (\<lambda>(u, v, w) a. a(u := a u @ [(v, w)])) es (\<lambda>_. [])"

definition build_rev_adj :: "edge list \<Rightarrow> int \<Rightarrow> (int \<times> int) list" where
  "build_rev_adj es = fold (\<lambda>(u, v, w) r. r(v := r v @ [(u, w)])) es (\<lambda>_. [])"

definition adj :: "dag \<Rightarrow> int \<Rightarrow> (int \<times> int) list" where
  "adj g = build_adj (edges g)"

definition rev_adj :: "dag \<Rightarrow> int \<Rightarrow> (int \<times> int) list" where
  "rev_adj g = build_rev_adj (edges g)"

text \<open>
  The vertex set as \<open>__init__\<close> collects it: both endpoints of every edge, then the
  source when it is not there yet.
\<close>

definition vertex_set :: "edge list \<Rightarrow> int \<Rightarrow> int set" where
  "vertex_set es source =
     (let S = fold (\<lambda>(u, v, w) S. insert v (insert u S)) es {}
      in if source \<notin> S then insert source S else S)"

text \<open>A sequence is a traversal of a set when it lists each element exactly once.\<close>

definition iteration_order :: "int set \<Rightarrow> int list \<Rightarrow> bool" where
  "iteration_order S vs \<longleftrightarrow> distinct vs \<and> set vs = S"

text \<open>
  Kahn's algorithm. \<open>indeg\<close> is a \<open>defaultdict(int)\<close>: a total function with default 0.
  \<open>relax\<close> is the body of the inner \<open>for v, _ in self.adj[u]\<close>.
\<close>

definition init_indeg :: "int list \<Rightarrow> edge list \<Rightarrow> int \<Rightarrow> int" where
  "init_indeg vs es =
     fold (\<lambda>(u, v, w) d. d(v := d v + 1)) es (fold (\<lambda>v d. d(v := 0)) vs (\<lambda>_. 0))"

fun relax :: "int \<times> int \<Rightarrow> (int \<Rightarrow> int) \<times> int list \<Rightarrow> (int \<Rightarrow> int) \<times> int list" where
  "relax (v, w) (indeg, q) =
     (let indeg' = indeg(v := indeg v - 1)
      in (indeg', if indeg' v = 0 then q @ [v] else q))"

definition kahn_measure :: "edge list \<Rightarrow> (int \<Rightarrow> int) \<Rightarrow> int list \<Rightarrow> nat" where
  "kahn_measure es indeg q =
     length q + length (filter (\<lambda>v. 0 < indeg v) (remdups (map (\<lambda>e. fst (snd e)) es)))"

lemma build_adj_fold:
  "fold (\<lambda>(u, v, w) a. a(u := a u @ [(v, w)])) es a0 x
     = a0 x @ map snd (filter (\<lambda>e. fst e = x) es)"
  by (induction es arbitrary: a0) (auto split: prod.splits)

lemma build_adj_eq: "build_adj es x = map snd (filter (\<lambda>e. fst e = x) es)"
  by (simp add: build_adj_def build_adj_fold)

lemma build_rev_adj_fold:
  "fold (\<lambda>(u, v, w) r. r(v := r v @ [(u, w)])) es r0 x
     = r0 x @ map (\<lambda>e. (fst e, snd (snd e))) (filter (\<lambda>e. fst (snd e) = x) es)"
  by (induction es arbitrary: r0) (auto split: prod.splits)

lemma build_rev_adj_eq:
  "build_rev_adj es x = map (\<lambda>e. (fst e, snd (snd e))) (filter (\<lambda>e. fst (snd e) = x) es)"
  by (simp add: build_rev_adj_def build_rev_adj_fold)

lemma length_filter_mono:
  "(\<And>y. y \<in> set xs \<Longrightarrow> P y \<Longrightarrow> Q y) \<Longrightarrow> length (filter P xs) \<le> length (filter Q xs)"
  by (induction xs) auto

lemma length_filter_strict_mono:
  assumes "\<And>y. y \<in> set xs \<Longrightarrow> P y \<Longrightarrow> Q y" and "x \<in> set xs" and "Q x" and "\<not> P x"
  shows "length (filter P xs) < length (filter Q xs)"
proof -
  have "filter P xs = filter P (filter Q xs)"
    using assms(1) by (auto intro: filter_cong)
  moreover have "length (filter P (filter Q xs)) < length (filter Q xs)"
    by (rule length_filter_less[where x = x]) (use assms in auto)
  ultimately show ?thesis by simp
qed

lemma relax_measure:
  assumes "fst e \<in> set (map (\<lambda>e. fst (snd e)) es)"
  shows "kahn_measure es (fst (relax e s)) (snd (relax e s)) \<le> kahn_measure es (fst s) (snd s)"
proof -
  obtain v w where e: "e = (v, w)" by (cases e)
  obtain indeg q where s: "s = (indeg, q)" by (cases s)
  let ?T = "remdups (map (\<lambda>e. fst (snd e)) es)"
  have vT: "v \<in> set ?T" using assms e by simp
  have dT: "distinct ?T" by simp
  show ?thesis
  proof (cases "indeg v = 1")
    case True
    have "length (filter (\<lambda>x. 0 < (indeg(v := 0)) x) ?T) < length (filter (\<lambda>x. 0 < indeg x) ?T)"
      by (rule length_filter_strict_mono[where x = v]) (use True vT in \<open>auto split: if_splits\<close>)
    then show ?thesis using True by (simp add: e s kahn_measure_def)
  next
    case False
    have "length (filter (\<lambda>x. 0 < (indeg(v := indeg v - 1)) x) ?T) \<le> length (filter (\<lambda>x. 0 < indeg x) ?T)"
      by (rule length_filter_mono) (auto split: if_splits)
    then show ?thesis using False by (simp add: e s kahn_measure_def Let_def)
  qed
qed

lemma fold_relax_measure:
  "fst ` set xs \<subseteq> set (map (\<lambda>e. fst (snd e)) es) \<Longrightarrow>
   kahn_measure es (fst (fold relax xs s)) (snd (fold relax xs s)) \<le> kahn_measure es (fst s) (snd s)"
proof (induction xs arbitrary: s)
  case Nil
  show ?case by simp
next
  case (Cons x xs)
  have "kahn_measure es (fst (fold relax xs (relax x s))) (snd (fold relax xs (relax x s)))
          \<le> kahn_measure es (fst (relax x s)) (snd (relax x s))"
    using Cons.prems by (intro Cons.IH) auto
  also have "\<dots> \<le> kahn_measure es (fst s) (snd s)"
    using Cons.prems by (intro relax_measure) auto
  finally show ?case by simp
qed

lemma build_adj_targets: "fst ` set (build_adj es u) \<subseteq> set (map (\<lambda>e. fst (snd e)) es)"
  by (force simp: build_adj_eq)

text \<open>
  The \<open>while q\<close> loop: pop the head, append it to \<open>topo\<close>, run the inner loop. It
  terminates on every edge list, cyclic or not, because an in-degree only decreases and
  can therefore reach 0 only once.
\<close>

function kahn_loop :: "edge list \<Rightarrow> (int \<Rightarrow> int) \<Rightarrow> int list \<Rightarrow> int list \<Rightarrow> int list" where
  "kahn_loop es indeg [] tp = tp"
| "kahn_loop es indeg (u # q) tp =
     (case fold relax (build_adj es u) (indeg, q) of
        (indeg', q') \<Rightarrow> kahn_loop es indeg' q' (tp @ [u]))"
  by pat_completeness auto
termination
proof (relation "measure (\<lambda>(es, indeg, q, tp). kahn_measure es indeg q)")
  show "wf (measure (\<lambda>(es, indeg, q, tp). kahn_measure es indeg q))" by simp
next
  fix es :: "edge list" and indeg :: "int \<Rightarrow> int" and u q tp x y
  assume xy: "(x, y) = fold relax (build_adj es u) (indeg, q)"
  have "kahn_measure es x y \<le> kahn_measure es indeg q"
    using fold_relax_measure[OF build_adj_targets, of es u "(indeg, q)"] xy[symmetric] by simp
  also have "\<dots> < kahn_measure es indeg (u # q)"
    by (simp add: kahn_measure_def)
  finally show "((es, x, y, tp @ [u]), (es, indeg, u # q, tp))
      \<in> measure (\<lambda>(es, indeg, q, tp). kahn_measure es indeg q)"
    by simp
qed

text \<open>
  \<open>_validate_dag\<close>: \<open>len(self.vertices)\<close> is the number of elements of the set, the length
  of its traversal.
\<close>

definition validate_dag :: "dag \<Rightarrow> error + dag" where
  "validate_dag g =
     (let indeg = init_indeg (vertices g) (edges g);
          q = filter (\<lambda>v. indeg v = 0) (vertices g);
          t = kahn_loop (edges g) indeg q []
      in if length t \<noteq> length (vertices g) then Inl CycleDetected
         else Inr (g\<lparr>topo := t\<rparr>))"

text \<open>
  \<open>__init__\<close>, given the edge list, the source and the traversal \<open>vs\<close> of the vertex set
  it has collected.
\<close>

definition DAG_init :: "int list \<Rightarrow> edge list \<Rightarrow> int \<Rightarrow> error + dag" where
  "DAG_init vs es source =
     validate_dag \<lparr>edges = es, src = source, vertices = vs, topo = []\<rparr>"

section \<open>Path counting\<close>

text \<open>
  \<open>cnt\<close> is a plain dictionary: reading a missing key raises \<open>KeyError\<close>. The statement
  \<open>cnt[v] += cnt[u]\<close> reads \<open>cnt[v]\<close>, then \<open>cnt[u]\<close>, then stores the sum.
\<close>

fun for_each :: "('a \<Rightarrow> 's \<Rightarrow> error + 's) \<Rightarrow> 'a list \<Rightarrow> 's \<Rightarrow> error + 's" where
  "for_each f [] s = Inr s"
| "for_each f (x # xs) s = (case f x s of Inl e \<Rightarrow> Inl e | Inr s' \<Rightarrow> for_each f xs s')"

fun cnt_add :: "int \<Rightarrow> int \<times> int \<Rightarrow> (int \<rightharpoonup> int) \<Rightarrow> error + (int \<rightharpoonup> int)" where
  "cnt_add u (v, w) cnt =
     (case cnt v of
        None \<Rightarrow> Inl (KeyError v)
      | Some a \<Rightarrow>
          (case cnt u of
             None \<Rightarrow> Inl (KeyError u)
           | Some b \<Rightarrow> Inr (cnt(v \<mapsto> a + b))))"

definition path_counts :: "dag \<Rightarrow> error + (int \<rightharpoonup> int)" where
  "path_counts g =
     (let cnt = map_of (map (\<lambda>v. (v, 0)) (vertices g));
          cnt = cnt(src g \<mapsto> 1)
      in for_each (\<lambda>u cnt. for_each (cnt_add u) (adj g u) cnt) (topo g) cnt)"

section \<open>Path enumeration\<close>








section \<open>Neighbours and the insertion proposal\<close>

definition neighbors_of :: "dag \<Rightarrow> int \<Rightarrow> int set" where
  "neighbors_of g v =
     (let S = set (map fst (rev_adj g v));
          S = S \<union> set (map fst (adj g v))
      in if v \<in> S then S - {v} else S)"

text \<open>
  The greedy loop of \<open>propose_vprime_insertion\<close> over the sorted candidates, with its
  \<open>continue\<close> and its \<open>break\<close>; the state is \<open>(total, chosen)\<close>, with \<open>total\<close> written \<open>tot\<close>.
\<close>

fun greedy :: "int \<Rightarrow> (int \<times> int) list \<Rightarrow> int \<times> int list \<Rightarrow> int \<times> int list" where
  "greedy max_paths [] (tot, chosen) = (tot, chosen)"
| "greedy max_paths ((u, c) # rest) (tot, chosen) =
     (if c \<le> 0 then greedy max_paths rest (tot, chosen)
      else let chosen' = chosen @ [u]; tot' = tot + c
           in if tot' > max_paths then (tot', chosen')
              else greedy max_paths rest (tot', chosen'))"

text \<open>
  The two messages are formatted strings; the model keeps the values they are built from.
\<close>

datatype message =
  Impossible int int int
  | Inserted int "int list" int int

text \<open>\<open>cnt.get(k, 0)\<close> and \<open>max\<close> of a collection (a \<open>ValueError\<close> when it is empty).\<close>

definition get_or :: "(int \<rightharpoonup> int) \<Rightarrow> int \<Rightarrow> int \<Rightarrow> int" where
  "get_or m k d = (case m k of None \<Rightarrow> d | Some x \<Rightarrow> x)"

definition max_of :: "int list \<Rightarrow> error + int" where
  "max_of xs = (case xs of [] \<Rightarrow> Inl MaxOfEmpty | x # r \<Rightarrow> Inr (fold max r x))"

text \<open>
  \<open>candidates.sort(key=lambda x: x[1], reverse=True)\<close> is a stable sort into descending
  key order: elements with equal keys keep their relative order. \<open>sort_key\<close> is a stable
  insertion sort into ascending order, here on the negated key.
\<close>

definition propose_vprime_insertion ::
  "dag \<Rightarrow> int \<Rightarrow> int \<Rightarrow> error + (bool \<times> edge list \<times> message)" where
  "propose_vprime_insertion g v weight_default =
     (case path_counts g of
        Inl e \<Rightarrow> Inl e
      | Inr cnt \<Rightarrow>
          let max_paths = get_or cnt v 0;
              banned = neighbors_of g v;
              candidates = map (\<lambda>u. (u, get_or cnt u 0)) (filter (\<lambda>u. u \<notin> banned) (vertices g));
              candidates = sort_key (\<lambda>x. - snd x) candidates;
              (tot, chosen) = greedy max_paths candidates (0, [])
          in if tot \<le> max_paths then Inr (False, [], Impossible v tot max_paths)
             else (case max_of (vertices g) of
                     Inl e \<Rightarrow> Inl e
                   | Inr m \<Rightarrow>
                       let vprime = m + 1;
                           new_edges = map (\<lambda>u. (u, vprime, weight_default)) chosen
                       in Inr (True, new_edges, Inserted vprime chosen tot max_paths)))"

section \<open>Reachability and cycles\<close>

text \<open>
  The notions the properties are stated with: the edge relation of an edge list, a vertex
  reachable from another (by a path of zero or more edges), a cycle (a path of one or
  more edges from a vertex to itself).
\<close>

definition edge_rel :: "edge list \<Rightarrow> (int \<times> int) set" where
  "edge_rel es = (\<lambda>e. (fst e, fst (snd e))) ` set es"

definition reachable :: "edge list \<Rightarrow> int \<Rightarrow> int \<Rightarrow> bool" where
  "reachable es s t \<longleftrightarrow> (s, t) \<in> (edge_rel es)\<^sup>*"

definition has_cycle :: "edge list \<Rightarrow> bool" where
  "has_cycle es \<longleftrightarrow> (\<exists>v. (v, v) \<in> (edge_rel es)\<^sup>+)"

section \<open>Notions of the proofs\<close>

text \<open>
  For the topological order: the number of edges into a vertex whose origin lies outside
  a set, and one element standing before another in a list.
\<close>

definition indeg_left :: "edge list \<Rightarrow> int set \<Rightarrow> int \<Rightarrow> int" where
  "indeg_left es D x = int (length (filter (\<lambda>e. fst (snd e) = x \<and> fst e \<notin> D) es))"

definition precedes :: "int list \<Rightarrow> int \<Rightarrow> int \<Rightarrow> bool" where
  "precedes L a b \<longleftrightarrow> (\<exists>i j. i < j \<and> j < length L \<and> L ! i = a \<and> L ! j = b)"

text \<open>
  The invariant of the \<open>while\<close> loop of \<open>_validate_dag\<close>, between two iterations: \<open>tp\<close>
  and \<open>q\<close> share no vertex and repeat none, \<open>indeg\<close> counts the edges from vertices not
  yet in \<open>tp\<close>, the vertices in \<open>tp\<close> or \<open>q\<close> are those whose count is 0, and every edge
  into a vertex of \<open>tp @ q\<close> starts at an earlier position.
\<close>

definition kahn_inv :: "edge list \<Rightarrow> int list \<Rightarrow> (int \<Rightarrow> int) \<Rightarrow> int list \<Rightarrow> int list \<Rightarrow> bool" where
  "kahn_inv es vs indeg q tp \<longleftrightarrow>
     distinct (tp @ q) \<and> set (tp @ q) \<subseteq> set vs
     \<and> (\<forall>x. indeg x = indeg_left es (set tp) x)
     \<and> (\<forall>x \<in> set vs. x \<in> set (tp @ q) \<longleftrightarrow> indeg x = 0)
     \<and> (\<forall>e \<in> set es. fst (snd e) \<in> set (tp @ q) \<longrightarrow> precedes (tp @ q) (fst e) (fst (snd e)))"

text \<open>The list the loop returns from its initial state.\<close>

definition kahn_order :: "int list \<Rightarrow> edge list \<Rightarrow> int list" where
  "kahn_order vs es =
     kahn_loop es (init_indeg vs es) (filter (\<lambda>v. init_indeg vs es v = 0) vs) []"

text \<open>What a successfully constructed object satisfies.\<close>

definition well_formed :: "dag \<Rightarrow> bool" where
  "well_formed g \<longleftrightarrow>
     iteration_order (vertex_set (edges g) (src g)) (vertices g)
     \<and> iteration_order (set (vertices g)) (topo g)
     \<and> (\<forall>e \<in> set (edges g). precedes (topo g) (fst e) (fst (snd e)))"

text \<open>The position of the first occurrence of an element.\<close>

definition pos :: "int list \<Rightarrow> int \<Rightarrow> nat" where
  "pos L x = length (takeWhile (\<lambda>y. y \<noteq> x) L)"

text \<open>
  The dictionary \<open>cnt\<close> of \<open>path_counts\<close> always has the vertex set as its keys; the
  proofs work with the total function of its values.
\<close>

definition lift :: "int set \<Rightarrow> (int \<Rightarrow> int) \<Rightarrow> (int \<rightharpoonup> int)" where
  "lift V c = (\<lambda>x. if x \<in> V then Some (c x) else None)"

definition bump :: "int \<Rightarrow> int \<times> int \<Rightarrow> (int \<Rightarrow> int) \<Rightarrow> (int \<Rightarrow> int)" where
  "bump u e c = c(fst e := c (fst e) + c u)"

definition counts_from :: "edge list \<Rightarrow> int list \<Rightarrow> (int \<Rightarrow> int) \<Rightarrow> (int \<Rightarrow> int)" where
  "counts_from es L c = fold (\<lambda>u. fold (bump u) (build_adj es u)) L c"

definition counts :: "dag \<Rightarrow> int \<Rightarrow> int" where
  "counts g = counts_from (edges g) (topo g) ((\<lambda>_. 0)(src g := 1))"

text \<open>
  A list in which no vertex is repeated and every edge out of a listed vertex leads to a
  vertex further back; and the sum of the current counts of the origins, inside a set, of
  the edges into a vertex.
\<close>

fun topo_sorted :: "edge list \<Rightarrow> int list \<Rightarrow> bool" where
  "topo_sorted es [] = True"
| "topo_sorted es (u # L) =
     (u \<notin> set L \<and> (\<forall>e \<in> set es. fst e = u \<longrightarrow> fst (snd e) \<in> set L) \<and> topo_sorted es L)"

definition into :: "edge list \<Rightarrow> int set \<Rightarrow> int \<Rightarrow> (int \<Rightarrow> int) \<Rightarrow> int" where
  "into es D v c = sum_list (map (\<lambda>e. c (fst e)) (filter (\<lambda>e. fst (snd e) = v \<and> fst e \<in> D) es))"

text \<open>Counts are never negative, and only vertices reachable from the source get a positive one.\<close>

definition sound_counts :: "edge list \<Rightarrow> int \<Rightarrow> (int \<Rightarrow> int) \<Rightarrow> bool" where
  "sound_counts es s c \<longleftrightarrow> (\<forall>x. 0 \<le> c x \<and> (0 < c x \<longrightarrow> reachable es s x))"

text \<open>The two graphs of the test suite: fixtures \<open>enunciado\<close> and \<open>caso_fail_3b\<close>.\<close>

definition enunciado :: "edge list" where
  "enunciado = [(0, 1, 2), (0, 2, 4), (0, 4, -2), (0, 5, 1), (0, 6, 5), (2, 3, 3), (2, 4, 2),
     (3, 8, -4), (4, 3, 5), (4, 8, 1), (4, 7, 2), (5, 7, -1), (5, 8, -3), (6, 7, 6), (7, 8, 2)]"

definition caso_fail_3b :: "edge list" where
  "caso_fail_3b = [(0, 1, 1), (0, 2, 1), (0, 3, 1), (1, 4, 1), (2, 4, 1), (3, 4, 1), (0, 4, 1)]"

definition enunciado_dag :: dag where
  "enunciado_dag = \<lparr>edges = enunciado, src = 0, vertices = [0, 1, 2, 3, 4, 5, 6, 7, 8],
     topo = [0, 1, 2, 5, 6, 4, 3, 7, 8]\<rparr>"

definition caso_fail_3b_dag :: dag where
  "caso_fail_3b_dag = \<lparr>edges = caso_fail_3b, src = 0, vertices = [0, 1, 2, 3, 4],
     topo = [0, 1, 2, 3, 4]\<rparr>"

text \<open>The sum of the positive counts of a candidate list.\<close>

definition pos_sum :: "(int \<times> int) list \<Rightarrow> int" where
  "pos_sum cs = sum_list (map snd (filter (\<lambda>x. 0 < snd x) cs))"

text \<open>\<open>max_paths\<close> and the sorted \<open>candidates\<close> of the proposal, in terms of the values.\<close>

definition threshold :: "dag \<Rightarrow> int \<Rightarrow> int" where
  "threshold g v = (if v \<in> set (vertices g) then counts g v else 0)"

definition cands :: "dag \<Rightarrow> int \<Rightarrow> (int \<times> int) list" where
  "cands g v = sort_key (\<lambda>x. - snd x)
     (map (\<lambda>u. (u, counts g u)) (filter (\<lambda>u. u \<notin> neighbors_of g v) (vertices g)))"

text \<open>
  The number of entries a call \<open>dfs(u, _)\<close> adds to \<open>res\<close>, computed backwards along a
  topologically sorted list: 1 at the target, otherwise the sum over the outgoing edges.
\<close>

fun fwd :: "(int \<Rightarrow> (int \<times> int) list) \<Rightarrow> int \<Rightarrow> int list \<Rightarrow> int \<Rightarrow> int" where
  "fwd a t [] = (\<lambda>_. 0)"
| "fwd a t (u # L) =
     (fwd a t L)(u := if u = t then 1 else sum_list (map (\<lambda>e. fwd a t L (fst e)) (a u)))"

section \<open>Kahn's algorithm: the loop invariant\<close>

lemma vertex_set_fold:
  "fold (\<lambda>(u, v, w) S. insert v (insert u S)) es S0
     = S0 \<union> fst ` set es \<union> (\<lambda>e. fst (snd e)) ` set es"
  by (induction es arbitrary: S0) (auto split: prod.splits)

lemma vertex_set_eq:
  "vertex_set es source = insert source (fst ` set es \<union> (\<lambda>e. fst (snd e)) ` set es)"
  by (auto simp: vertex_set_def vertex_set_fold Let_def)

lemma init_indeg_fold:
  "fold (\<lambda>(u, v, w) d. d(v := d v + 1)) es d0 x
     = d0 x + int (length (filter (\<lambda>e. fst (snd e) = x) es))"
  by (induction es arbitrary: d0) (auto split: prod.splits)

lemma init_zero_fold: "fold (\<lambda>v d. d(v := 0)) vs (\<lambda>_. 0::int) = (\<lambda>_. 0)"
  by (induction vs) (auto simp: fun_upd_idem)

lemma init_indeg_eq: "init_indeg vs es x = indeg_left es {} x"
  by (simp add: init_indeg_def init_zero_fold init_indeg_fold indeg_left_def)

lemma fold_relax_char:
  "\<exists>new. fold relax ts (indeg, q)
            = (\<lambda>x. indeg x - int (count_list (map fst ts) x), q @ new)
        \<and> distinct new
        \<and> set new = {x \<in> fst ` set ts. 1 \<le> indeg x \<and> indeg x \<le> int (count_list (map fst ts) x)}"
proof (induction ts arbitrary: indeg q)
  case Nil
  show ?case by simp
next
  case (Cons t ts)
  obtain v w where t: "t = (v, w)" by (cases t)
  define d where "d = indeg(v := indeg v - 1)"
  define q1 where "q1 = (if indeg v = 1 then q @ [v] else q)"
  define n1 where "n1 = (if indeg v = 1 then [v] else [])"
  have step: "relax t (indeg, q) = (d, q1)"
    by (simp add: t Let_def d_def q1_def)
  from Cons.IH[of d q1] obtain new where
    f: "fold relax ts (d, q1) = (\<lambda>x. d x - int (count_list (map fst ts) x), q1 @ new)"
    and dn: "distinct new"
    and s: "set new = {x \<in> fst ` set ts. 1 \<le> d x \<and> d x \<le> int (count_list (map fst ts) x)}"
    by blast
  have e1: "(\<lambda>x. d x - int (count_list (map fst ts) x))
          = (\<lambda>x. indeg x - int (count_list (map fst (t # ts)) x))"
    by (rule ext) (simp add: d_def t)
  have e2: "q1 @ new = q @ (n1 @ new)"
    by (simp add: q1_def n1_def)
  have "fold relax (t # ts) (indeg, q)
          = (\<lambda>x. indeg x - int (count_list (map fst (t # ts)) x), q @ (n1 @ new))"
    by (simp only: fold_simps step f e1 e2)
  moreover have "distinct (n1 @ new)"
    using dn s by (simp add: n1_def d_def)
  moreover have "set (n1 @ new) = {x \<in> fst ` set (t # ts).
       1 \<le> indeg x \<and> indeg x \<le> int (count_list (map fst (t # ts)) x)}"
  proof (intro set_eqI iffI)
    fix x assume "x \<in> set (n1 @ new)"
    then consider "x = v" "indeg v = 1" | "x \<in> set new"
      by (auto simp: n1_def split: if_splits)
    then show "x \<in> {x \<in> fst ` set (t # ts).
       1 \<le> indeg x \<and> indeg x \<le> int (count_list (map fst (t # ts)) x)}"
    proof cases
      case 1
      then show ?thesis by (simp add: t)
    next
      case 2
      then show ?thesis unfolding s by (cases "x = v") (auto simp: d_def t)
    qed
  next
    fix x assume a: "x \<in> {x \<in> fst ` set (t # ts).
       1 \<le> indeg x \<and> indeg x \<le> int (count_list (map fst (t # ts)) x)}"
    show "x \<in> set (n1 @ new)"
    proof (cases "x = v")
      case True
      show ?thesis
      proof (cases "indeg v = 1")
        case True
        with \<open>x = v\<close> show ?thesis by (simp add: n1_def)
      next
        case False
        have "0 < count_list (map fst ts) v"
          using a False True by (simp add: t)
        then have "v \<in> fst ` set ts"
          by (metis count_list_0_iff less_numeral_extra(3) set_map)
        then have "v \<in> set new"
          unfolding s using a False True by (simp add: d_def t)
        then show ?thesis using True by simp
      qed
    next
      case False
      then have "x \<in> set new" unfolding s using a by (auto simp: d_def t)
      then show ?thesis by simp
    qed
  qed
  ultimately show ?case by blast
qed

lemma count_adj:
  "int (count_list (map fst (build_adj es u)) x)
     = int (length (filter (\<lambda>e. fst (snd e) = x \<and> fst e = u) es))"
  by (induction es) (auto simp: build_adj_eq)

lemma indeg_left_insert:
  "u \<notin> D \<Longrightarrow> indeg_left es (insert u D) x
     = indeg_left es D x - int (length (filter (\<lambda>e. fst (snd e) = x \<and> fst e = u) es))"
  unfolding indeg_left_def by (induction es) auto

lemma indeg_left_zero:
  "indeg_left es D x = 0 \<longleftrightarrow> (\<forall>e \<in> set es. fst (snd e) = x \<longrightarrow> fst e \<in> D)"
  by (auto simp: indeg_left_def filter_empty_conv)

lemma indeg_left_nonneg: "0 \<le> indeg_left es D x"
  by (simp add: indeg_left_def)

lemma precedes_append: "precedes L a b \<Longrightarrow> precedes (L @ M) a b"
  unfolding precedes_def by (metis length_append nth_append trans_less_add1 less_trans)

lemma precedes_appendI:
  assumes "a \<in> set L" and "b \<in> set M"
  shows "precedes (L @ M) a b"
proof -
  obtain i where i: "i < length L" "L ! i = a" using assms(1) by (auto simp: in_set_conv_nth)
  obtain k where k: "k < length M" "M ! k = b" using assms(2) by (auto simp: in_set_conv_nth)
  have "i < length L + k" "length L + k < length (L @ M)"
       "(L @ M) ! i = a" "(L @ M) ! (length L + k) = b"
    using i k by (simp_all add: nth_append)
  then show ?thesis unfolding precedes_def by blast
qed

lemma kahn_step:
  assumes inv: "kahn_inv es vs indeg (u # q) tp"
    and ends: "\<forall>e \<in> set es. fst e \<in> set vs \<and> fst (snd e) \<in> set vs"
    and f: "fold relax (build_adj es u) (indeg, q) = (indeg', q')"
  shows "kahn_inv es vs indeg' q' (tp @ [u])"
proof -
  define c where "c x = int (length (filter (\<lambda>e. fst (snd e) = x \<and> fst e = u) es))" for x
  from fold_relax_char[of "build_adj es u" indeg q] f obtain new where
    i': "indeg' = (\<lambda>x. indeg x - c x)" and q': "q' = q @ new" and dn: "distinct new"
    and sn: "set new = {x \<in> fst ` set (build_adj es u). 1 \<le> indeg x \<and> indeg x \<le> c x}"
    unfolding count_adj c_def by auto
  have d: "distinct (tp @ u # q)" and sub: "set (tp @ u # q) \<subseteq> set vs"
    and cnt: "\<And>x. indeg x = indeg_left es (set tp) x"
    and zero: "\<And>x. x \<in> set vs \<Longrightarrow> x \<in> set (tp @ u # q) \<longleftrightarrow> indeg x = 0"
    and srt: "\<And>e. e \<in> set es \<Longrightarrow> fst (snd e) \<in> set (tp @ u # q)
                \<Longrightarrow> precedes (tp @ u # q) (fst e) (fst (snd e))"
    using inv unfolding kahn_inv_def by blast+
  have u: "u \<notin> set tp" using d by simp
  have cnt': "indeg' x = indeg_left es (set (tp @ [u])) x" for x
    using indeg_left_insert[OF u, of es x] by (simp add: i' cnt c_def)
  have tg: "x \<in> fst ` set (build_adj es u) \<longleftrightarrow> 0 < c x" for x
    by (force simp: build_adj_eq c_def filter_empty_conv image_iff)
  have tgvs: "x \<in> set vs" if "0 < c x" for x
  proof -
    from that obtain e where "e \<in> set es" "fst (snd e) = x"
      by (auto simp: c_def filter_empty_conv)
    then show ?thesis using ends by auto
  qed
  have c0: "c x = 0" if "indeg x = 0" for x
  proof -
    have "\<forall>e \<in> set es. fst (snd e) = x \<longrightarrow> fst e \<in> set tp"
      using that cnt[of x] by (simp add: indeg_left_zero)
    then show ?thesis using u by (auto simp: c_def filter_empty_conv)
  qed
  have new0: "indeg' x = 0 \<and> x \<in> set vs \<and> x \<notin> set (tp @ u # q)" if "x \<in> set new" for x
  proof -
    have a: "0 < c x" "1 \<le> indeg x" "indeg x \<le> c x" using that sn tg by auto
    have "0 \<le> indeg' x" using cnt'[of x] indeg_left_nonneg by simp
    then have "indeg' x = 0" using a by (simp add: i')
    moreover have "x \<in> set vs" using a tgvs by simp
    moreover have "x \<notin> set (tp @ u # q)" using zero[OF \<open>x \<in> set vs\<close>] a by auto
    ultimately show ?thesis by simp
  qed
  have L: "(tp @ [u]) @ q' = (tp @ u # q) @ new" by (simp add: q')
  have 1: "distinct ((tp @ [u]) @ q')"
    unfolding L using d dn new0 by (auto simp del: append_assoc)
  have 2: "set ((tp @ [u]) @ q') \<subseteq> set vs"
    unfolding L using sub new0 by auto
  have 4: "x \<in> set ((tp @ [u]) @ q') \<longleftrightarrow> indeg' x = 0" if xv: "x \<in> set vs" for x
  proof
    assume "x \<in> set ((tp @ [u]) @ q')"
    then consider "x \<in> set (tp @ u # q)" | "x \<in> set new" unfolding L by auto
    then show "indeg' x = 0"
    proof cases
      case 1
      then have "indeg x = 0" using zero[OF xv] by simp
      then show ?thesis using c0 by (simp add: i')
    next
      case 2
      then show ?thesis using new0 by simp
    qed
  next
    assume z: "indeg' x = 0"
    show "x \<in> set ((tp @ [u]) @ q')"
    proof (cases "indeg x = 0")
      case True
      then show ?thesis unfolding L using zero[OF xv] by auto
    next
      case False
      have "0 \<le> indeg x" using cnt[of x] indeg_left_nonneg by simp
      then have "1 \<le> indeg x" "indeg x \<le> c x" "0 < c x" using False z by (simp_all add: i')
      then have "x \<in> set new" using sn tg by simp
      then show ?thesis unfolding L by simp
    qed
  qed
  have 5: "precedes ((tp @ [u]) @ q') (fst e) (fst (snd e))"
    if e: "e \<in> set es" and t: "fst (snd e) \<in> set ((tp @ [u]) @ q')" for e
  proof (cases "fst (snd e) \<in> set (tp @ u # q)")
    case True
    then show ?thesis unfolding L using srt[OF e] precedes_append by blast
  next
    case False
    then have n: "fst (snd e) \<in> set new" using t unfolding L by auto
    then have "indeg_left es (set (tp @ [u])) (fst (snd e)) = 0"
      using new0 cnt' by metis
    then have "fst e \<in> set (tp @ [u])" using e by (auto simp: indeg_left_zero)
    then have "fst e \<in> set (tp @ u # q)" by auto
    then show ?thesis unfolding L using n by (rule precedes_appendI)
  qed
  show ?thesis
    unfolding kahn_inv_def using 1 2 cnt' 4 5 by blast
qed

lemma kahn_loop_inv:
  assumes "kahn_inv es vs indeg q tp"
    and "\<forall>e \<in> set es. fst e \<in> set vs \<and> fst (snd e) \<in> set vs"
  shows "\<exists>indeg'. kahn_inv es vs indeg' [] (kahn_loop es indeg q tp)"
  using assms
proof (induction es indeg q tp rule: kahn_loop.induct)
  case (1 es indeg tp)
  then show ?case by auto
next
  case (2 es indeg u q tp)
  obtain indeg' q' where f: "fold relax (build_adj es u) (indeg, q) = (indeg', q')"
    by (cases "fold relax (build_adj es u) (indeg, q)")
  have "kahn_inv es vs indeg' q' (tp @ [u])"
    using kahn_step[OF "2.prems"(1) "2.prems"(2) f] .
  then have "\<exists>d. kahn_inv es vs d [] (kahn_loop es indeg' q' (tp @ [u]))"
    using "2.IH"[OF f[symmetric]] "2.prems"(2) by blast
  then show ?case by (simp add: f)
qed

lemma kahn_init:
  assumes "distinct vs"
  shows "kahn_inv es vs (init_indeg vs es) (filter (\<lambda>v. init_indeg vs es v = 0) vs) []"
proof -
  have "\<And>e. e \<in> set es \<Longrightarrow> init_indeg vs es (fst (snd e)) \<noteq> 0"
    by (auto simp: init_indeg_eq indeg_left_zero)
  then show ?thesis
    unfolding kahn_inv_def using assms by (auto simp: init_indeg_eq)
qed

lemma validate_dag_eq:
  "validate_dag g =
     (if length (kahn_order (vertices g) (edges g)) \<noteq> length (vertices g) then Inl CycleDetected
      else Inr (g\<lparr>topo := kahn_order (vertices g) (edges g)\<rparr>))"
  by (simp add: validate_dag_def kahn_order_def Let_def)

lemma kahn_order_props:
  assumes "iteration_order (vertex_set es source) vs"
  shows "distinct (kahn_order vs es)"
    and "set (kahn_order vs es) \<subseteq> set vs"
    and "\<And>x. x \<in> set vs \<Longrightarrow>
            x \<in> set (kahn_order vs es) \<longleftrightarrow> indeg_left es (set (kahn_order vs es)) x = 0"
    and "\<And>e. e \<in> set es \<Longrightarrow> fst (snd e) \<in> set (kahn_order vs es)
            \<Longrightarrow> precedes (kahn_order vs es) (fst e) (fst (snd e))"
proof -
  have d: "distinct vs" and s: "set vs = vertex_set es source"
    using assms by (auto simp: iteration_order_def)
  have ends: "\<forall>e \<in> set es. fst e \<in> set vs \<and> fst (snd e) \<in> set vs"
    by (auto simp: s vertex_set_eq)
  from kahn_loop_inv[OF kahn_init[OF d] ends]
  obtain d' where inv: "kahn_inv es vs d' [] (kahn_order vs es)"
    unfolding kahn_order_def by blast
  show "distinct (kahn_order vs es)" "set (kahn_order vs es) \<subseteq> set vs"
    using inv by (auto simp: kahn_inv_def)
  show "x \<in> set (kahn_order vs es) \<longleftrightarrow> indeg_left es (set (kahn_order vs es)) x = 0"
    if "x \<in> set vs" for x
    using inv that unfolding kahn_inv_def by (metis append_Nil2)
  show "precedes (kahn_order vs es) (fst e) (fst (snd e))"
    if "e \<in> set es" "fst (snd e) \<in> set (kahn_order vs es)" for e
    using inv that unfolding kahn_inv_def by (metis append_Nil2)
qed

lemma DAG_init_well_formed:
  assumes io: "iteration_order (vertex_set es source) vs"
    and ok: "DAG_init vs es source = Inr g"
  shows "well_formed g" and "edges g = es" and "src g = source" and "vertices g = vs"
    and "topo g = kahn_order vs es"
proof -
  have len: "length (kahn_order vs es) = length vs"
    and g: "g = \<lparr>edges = es, src = source, vertices = vs, topo = kahn_order vs es\<rparr>"
    using ok by (auto simp: DAG_init_def validate_dag_eq split: if_splits)
  show e: "edges g = es" "src g = source" "vertices g = vs" "topo g = kahn_order vs es"
    by (simp_all add: g)
  have d: "distinct vs" and s: "set vs = vertex_set es source"
    using io by (auto simp: iteration_order_def)
  have "card (set (kahn_order vs es)) = card (set vs)"
    using kahn_order_props(1)[OF io] d len by (simp add: distinct_card)
  then have eq: "set (kahn_order vs es) = set vs"
    using kahn_order_props(2)[OF io] by (simp add: card_subset_eq)
  have "\<forall>e \<in> set es. precedes (kahn_order vs es) (fst e) (fst (snd e))"
    using kahn_order_props(4)[OF io] eq by (auto simp: s vertex_set_eq)
  then show "well_formed g"
    unfolding well_formed_def e using io kahn_order_props(1)[OF io] eq
    by (simp add: iteration_order_def)
qed

section \<open>Acyclicity\<close>

lemma pos_nth: "distinct L \<Longrightarrow> i < length L \<Longrightarrow> pos L (L ! i) = i"
proof -
  assume d: "distinct L" and i: "i < length L"
  have "takeWhile (\<lambda>y. y \<noteq> L ! i) L = take i L"
    by (rule takeWhile_eq_take_P_nth) (use d i in \<open>auto simp: nth_eq_iff_index_eq\<close>)
  then show ?thesis using i by (simp add: pos_def)
qed

lemma precedes_pos: "distinct L \<Longrightarrow> precedes L a b \<Longrightarrow> pos L a < pos L b"
  unfolding precedes_def by (metis pos_nth less_trans)

lemma rank_trancl:
  assumes "\<forall>e \<in> set es. (r (fst e) :: nat) < r (fst (snd e))"
    and "(a, b) \<in> (edge_rel es)\<^sup>+"
  shows "r a < r b"
  using assms(2)
proof (induction rule: trancl_induct)
  case (base y)
  then show ?case using assms(1) by (auto simp: edge_rel_def)
next
  case (step y z)
  then have "r y < r z" using assms(1) by (auto simp: edge_rel_def)
  with step.IH show ?case by simp
qed

lemma rank_acyclic:
  "\<forall>e \<in> set es. (r (fst e) :: nat) < r (fst (snd e)) \<Longrightarrow> \<not> has_cycle es"
  unfolding has_cycle_def using rank_trancl[of es r] by (metis less_irrefl)

lemma rank_reachable:
  assumes "\<forall>e \<in> set es. (r (fst e) :: nat) < r (fst (snd e))" and "reachable es a b"
  shows "r a \<le> r b"
  using assms rank_trancl[of es r a b] unfolding reachable_def
  by (metis less_imp_le order_refl rtranclD)

lemma well_formed_rank:
  "well_formed g \<Longrightarrow> \<forall>e \<in> set (edges g). pos (topo g) (fst e) < pos (topo g) (fst (snd e))"
  unfolding well_formed_def iteration_order_def using precedes_pos by blast

lemma well_formed_acyclic: "well_formed g \<Longrightarrow> \<not> has_cycle (edges g)"
  using well_formed_rank rank_acyclic by blast

lemma kahn_incomplete_cycle:
  assumes io: "iteration_order (vertex_set es source) vs"
    and len: "length (kahn_order vs es) \<noteq> length vs"
  shows "has_cycle es"
proof (rule ccontr)
  assume nc: "\<not> has_cycle es"
  let ?T = "kahn_order vs es"
  let ?U = "set vs - set ?T"
  have d: "distinct vs" and s: "set vs = vertex_set es source"
    using io by (auto simp: iteration_order_def)
  have "set ?T \<noteq> set vs"
    using len kahn_order_props(1)[OF io] d by (metis distinct_card)
  then obtain x0 where x0: "x0 \<in> ?U" using kahn_order_props(2)[OF io] by auto
  have "acyclic (edge_rel es)" using nc by (auto simp: acyclic_def has_cycle_def)
  moreover have "finite (edge_rel es)" by (simp add: edge_rel_def)
  ultimately have "wf (edge_rel es)" by (simp add: finite_acyclic_wf)
  then obtain z where z: "z \<in> ?U" and zmin: "\<And>y. (y, z) \<in> edge_rel es \<Longrightarrow> y \<notin> ?U"
    using x0 by (rule wfE_min) blast
  have "indeg_left es (set ?T) z \<noteq> 0" using kahn_order_props(3)[OF io, of z] z by simp
  then obtain e where e: "e \<in> set es" "fst (snd e) = z" "fst e \<notin> set ?T"
    by (auto simp: indeg_left_zero)
  have "fst e \<in> set vs" using e(1) by (auto simp: s vertex_set_eq)
  moreover have "(fst e, z) \<in> edge_rel es" using e by (force simp: edge_rel_def)
  ultimately show False using zmin e(3) by blast
qed

lemma DAG_init_cases:
  "DAG_init vs es source = Inl CycleDetected \<and> length (kahn_order vs es) \<noteq> length vs
   \<or> (\<exists>g. DAG_init vs es source = Inr g) \<and> length (kahn_order vs es) = length vs"
  by (simp add: DAG_init_def validate_dag_eq)

text \<open>
  C4. Given a traversal \<open>vs\<close> of the vertex set, construction raises the cycle error
  exactly when the edges contain a cycle, and returns an object exactly when they do not.
  The \<open>topo\<close> of a returned object lists every vertex of the graph exactly once, and the
  origin of every edge stands before its destination in it.
\<close>

theorem DAG_init_cycle_iff:
  assumes "iteration_order (vertex_set es source) vs"
  shows "(DAG_init vs es source = Inl CycleDetected \<longleftrightarrow> has_cycle es)
       \<and> ((\<exists>g. DAG_init vs es source = Inr g) \<longleftrightarrow> \<not> has_cycle es)
       \<and> (\<forall>g. DAG_init vs es source = Inr g \<longrightarrow>
              distinct (topo g) \<and> set (topo g) = vertex_set es source
              \<and> (\<forall>(u, v, w) \<in> set es. precedes (topo g) u v))"
proof -
  have ok: "well_formed g \<and> edges g = es \<and> vertices g = vs"
    if "DAG_init vs es source = Inr g" for g
    using DAG_init_well_formed[OF assms that] by simp
  have a: "\<not> has_cycle es" if "DAG_init vs es source = Inr g" for g
    using ok[OF that] well_formed_acyclic[of g] by simp
  have b: "has_cycle es" if "DAG_init vs es source = Inl CycleDetected"
    using DAG_init_cases[of vs es source] that kahn_incomplete_cycle[OF assms] by auto
  have c: "DAG_init vs es source = Inl CycleDetected \<or> (\<exists>g. DAG_init vs es source = Inr g)"
    using DAG_init_cases[of vs es source] by blast
  have d: "distinct (topo g) \<and> set (topo g) = vertex_set es source
              \<and> (\<forall>(u, v, w) \<in> set es. precedes (topo g) u v)"
    if "DAG_init vs es source = Inr g" for g
    using ok[OF that] assms unfolding well_formed_def iteration_order_def by fastforce
  show ?thesis using a b c d by (metis Inl_Inr_False)
qed

theorem DAG_init_cycle_iff_witness:
  "iteration_order (vertex_set [(0, 1, 1), (1, 0, 1)] 0) [0, 1]
   \<and> DAG_init [0, 1] [(0, 1, 1), (1, 0, 1)] 0 = Inl CycleDetected
   \<and> has_cycle [(0, 1, 1), (1, 0, 1)]
   \<and> iteration_order (vertex_set [(0, 1, 1), (0, 2, 1), (1, 2, 4)] 0) [0, 1, 2]
   \<and> DAG_init [0, 1, 2] [(0, 1, 1), (0, 2, 1), (1, 2, 4)] 0
       = Inr \<lparr>edges = [(0, 1, 1), (0, 2, 1), (1, 2, 4)], src = 0, vertices = [0, 1, 2],
              topo = [0, 1, 2]\<rparr>
   \<and> \<not> has_cycle [(0, 1, 1), (0, 2, 1), (1, 2, 4)]
   \<and> set [0, 1, 2] = vertex_set [(0, 1, 1), (0, 2, 1), (1, 2, 4)] 0
   \<and> precedes [0, 1, 2] 1 2"
proof -
  have io1: "iteration_order (vertex_set [(0, 1, 1), (1, 0, 1)] 0) [0, 1]"
    by (auto simp: iteration_order_def vertex_set_eq)
  have r1: "DAG_init [0, 1] [(0, 1, 1), (1, 0, 1)] 0 = Inl CycleDetected"
    by (simp add: DAG_init_def validate_dag_def init_indeg_def build_adj_eq Let_def)
  have io2: "iteration_order (vertex_set [(0, 1, 1), (0, 2, 1), (1, 2, 4)] 0) [0, 1, 2]"
    by (auto simp: iteration_order_def vertex_set_eq)
  have r2: "DAG_init [0, 1, 2] [(0, 1, 1), (0, 2, 1), (1, 2, 4)] 0
       = Inr \<lparr>edges = [(0, 1, 1), (0, 2, 1), (1, 2, 4)], src = 0, vertices = [0, 1, 2],
              topo = [0, 1, 2]\<rparr>"
    by (simp add: DAG_init_def validate_dag_def init_indeg_def build_adj_eq Let_def)
  show ?thesis
    using DAG_init_cycle_iff[OF io1] DAG_init_cycle_iff[OF io2] io1 io2 r1 r2
    by force
qed

section \<open>Path counting: the dictionary and its values\<close>

lemma cnt_add_lift:
  "u \<in> V \<Longrightarrow> fst e \<in> V \<Longrightarrow> cnt_add u e (lift V c) = Inr (lift V (bump u e c))"
  by (cases e) (auto simp: lift_def bump_def)

lemma for_each_cnt_add:
  "u \<in> V \<Longrightarrow> fst ` set ts \<subseteq> V \<Longrightarrow>
   for_each (cnt_add u) ts (lift V c) = Inr (lift V (fold (bump u) ts c))"
  by (induction ts arbitrary: c) (simp_all add: cnt_add_lift)

lemma for_each_nodes:
  "set L \<subseteq> V \<Longrightarrow> (\<forall>u \<in> set L. fst ` set (a u) \<subseteq> V) \<Longrightarrow>
   for_each (\<lambda>u cnt. for_each (cnt_add u) (a u) cnt) L (lift V c)
     = Inr (lift V (fold (\<lambda>u. fold (bump u) (a u)) L c))"
  by (induction L arbitrary: c) (simp_all add: for_each_cnt_add)

lemma init_cnt_lift:
  "s \<in> set vs \<Longrightarrow> (map_of (map (\<lambda>v. (v, 0)) vs))(s \<mapsto> 1) = lift (set vs) ((\<lambda>_. 0)(s := 1))"
proof (rule ext)
  fix x assume "s \<in> set vs"
  have "map_of (map (\<lambda>v. (v, 0::int)) vs) x = (if x \<in> set vs then Some 0 else None)"
    by (induction vs) auto
  then show "((map_of (map (\<lambda>v. (v, 0)) vs))(s \<mapsto> 1)) x = lift (set vs) ((\<lambda>_. 0)(s := 1)) x"
    using \<open>s \<in> set vs\<close> by (auto simp: lift_def)
qed

lemma well_formed_vertices:
  assumes "well_formed g"
  shows "src g \<in> set (vertices g)"
    and "set (topo g) = set (vertices g)"
    and "distinct (topo g)"
    and "distinct (vertices g)"
    and "\<And>e. e \<in> set (edges g) \<Longrightarrow> fst e \<in> set (vertices g) \<and> fst (snd e) \<in> set (vertices g)"
  using assms unfolding well_formed_def iteration_order_def vertex_set_eq by auto

lemma path_counts_lift:
  assumes "well_formed g"
  shows "path_counts g = Inr (lift (set (vertices g)) (counts g))"
proof -
  note wf = well_formed_vertices[OF assms]
  have "\<forall>u \<in> set (topo g). fst ` set (adj g u) \<subseteq> set (vertices g)"
    using wf(5) by (force simp: adj_def build_adj_eq)
  then show ?thesis
    unfolding path_counts_def Let_def init_cnt_lift[OF wf(1)] counts_def counts_from_def
    using for_each_nodes[of "topo g" "set (vertices g)" "adj g"] wf(2)
    by (simp add: adj_def)
qed

section \<open>Path counting: the recurrence\<close>

lemma precedes_split:
  assumes d: "distinct (P @ u # L)" and p: "precedes (P @ u # L) u b"
  shows "b \<in> set L"
proof -
  from p obtain i j where ij: "i < j" "j < length (P @ u # L)"
      "(P @ u # L) ! i = u" "(P @ u # L) ! j = b"
    unfolding precedes_def by blast
  have "(P @ u # L) ! length P = u" by simp
  then have "i = length P"
    using d ij by (metis length_append less_trans nth_eq_iff_index_eq nth_append_length
        add_Suc_right length_Cons less_add_Suc1)
  then have "b = L ! (j - length P - 1)" "j - length P - 1 < length L"
    using ij by (auto simp: nth_append nth_Cons')
  then show ?thesis by simp
qed

lemma topo_sorted_suffix:
  "distinct (P @ L) \<Longrightarrow> \<forall>e \<in> set es. precedes (P @ L) (fst e) (fst (snd e))
     \<Longrightarrow> topo_sorted es L"
proof (induction L arbitrary: P)
  case Nil
  show ?case by simp
next
  case (Cons u L)
  have "topo_sorted es L" using Cons.IH[of "P @ [u]"] Cons.prems by simp
  moreover have "fst (snd e) \<in> set L" if "e \<in> set es" "fst e = u" for e
    using precedes_split[OF Cons.prems(1)] Cons.prems(2) that by blast
  ultimately show ?case using Cons.prems(1) by simp
qed

lemma well_formed_topo_sorted: "well_formed g \<Longrightarrow> topo_sorted (edges g) (topo g)"
  using topo_sorted_suffix[of "[]" "topo g" "edges g"]
  by (simp add: well_formed_def iteration_order_def)


lemma topo_sorted_closed:
  "topo_sorted es L \<Longrightarrow> e \<in> set es \<Longrightarrow> fst e \<in> set L \<Longrightarrow> fst (snd e) \<in> set L"
  by (induction L) auto

lemma fold_bump:
  "u \<notin> fst ` set ts \<Longrightarrow>
   fold (bump u) ts c x = c x + int (count_list (map fst ts) x) * c u"
proof (induction ts arbitrary: c)
  case Nil
  show ?case by simp
next
  case (Cons t ts)
  have u: "bump u t c u = c u" using Cons.prems by (auto simp: bump_def)
  have ux: "bump u t c x = c x + (if fst t = x then c u else 0)" by (simp add: bump_def)
  have "fold (bump u) (t # ts) c x = fold (bump u) ts (bump u t c) x" by simp
  also have "\<dots> = bump u t c x + int (count_list (map fst ts) x) * bump u t c u"
    using Cons.IH[of "bump u t c"] Cons.prems by simp
  also have "\<dots> = c x + (if fst t = x then c u else 0) + int (count_list (map fst ts) x) * c u"
    by (simp only: u ux)
  also have "\<dots> = c x + int (count_list (map fst (t # ts)) x) * c u"
    by (simp add: algebra_simps)
  finally show ?case .
qed

lemma sum_filter_split:
  "\<forall>e \<in> set es. \<not> (A e \<and> B e) \<Longrightarrow>
   sum_list (map f (filter (\<lambda>e. A e \<or> B e) es))
     = (sum_list (map f (filter A es)) :: int) + sum_list (map f (filter B es))"
  by (induction es) auto

lemma into_insert:
  "u \<notin> D \<Longrightarrow> into es (insert u D) v c
     = into es D v c + int (length (filter (\<lambda>e. fst (snd e) = v \<and> fst e = u) es)) * c u"
  unfolding into_def by (induction es) (auto simp: algebra_simps)

lemma into_cong:
  assumes "\<And>x. x \<in> D \<Longrightarrow> c x = c' x"
  shows "into es D v c = into es D v c'"
  unfolding into_def by (induction es) (simp_all add: assms)

lemma counts_from_recurrence:
  assumes "topo_sorted es L" and "D \<inter> set L = {}"
    and "\<And>v. c v = c0 v + into es D v c"
  shows "counts_from es L c v = c0 v + into es (D \<union> set L) v (counts_from es L c)"
  using assms
proof (induction L arbitrary: D c v)
  case Nil
  have "counts_from es [] c = c" by (simp add: counts_from_def)
  then show ?case using Nil.prems(3)[of v] by simp
next
  case (Cons u L)
  define c1 where "c1 = fold (bump u) (build_adj es u) c"
  define k where "k x = int (length (filter (\<lambda>e. fst (snd e) = x \<and> fst e = u) es))" for x
  have ts: "topo_sorted es L" and uL: "u \<notin> set L"
    and out: "\<And>e. e \<in> set es \<Longrightarrow> fst e = u \<Longrightarrow> fst (snd e) \<in> set L"
    using Cons.prems(1) by simp_all
  have uD: "u \<notin> D" and dj: "insert u D \<inter> set L = {}"
    using Cons.prems(2) uL by auto
  have un: "u \<notin> fst ` set (build_adj es u)"
  proof
    assume "u \<in> fst ` set (build_adj es u)"
    then obtain e where "e \<in> set es" "fst e = u" "fst (snd e) = u"
      by (auto simp: build_adj_eq)
    then show False using out uL by metis
  qed
  have c1: "c1 x = c x + k x * c u" for x
    by (simp only: c1_def k_def fold_bump[OF un] count_adj)
  have k0: "k x = 0" if "x \<notin> set L" for x
  proof -
    have "\<forall>e \<in> set es. \<not> (fst (snd e) = x \<and> fst e = u)" using out that by blast
    then have "filter (\<lambda>e. fst (snd e) = x \<and> fst e = u) es = []"
      by (simp only: filter_empty_conv)
    then show ?thesis by (simp add: k_def)
  qed
  have same: "c1 x = c x" if "x \<in> insert u D" for x
  proof -
    have "x \<notin> set L" using that dj by blast
    then show ?thesis by (simp add: c1 k0)
  qed
  have rec: "c1 w = c0 w + into es (insert u D) w c1" for w
  proof -
    have "into es (insert u D) w c1 = into es (insert u D) w c"
      by (rule into_cong) (rule same)
    also have "\<dots> = into es D w c + k w * c u"
      unfolding k_def by (rule into_insert[OF uD])
    finally have "into es (insert u D) w c1 = into es D w c + k w * c u" .
    moreover have "c w = c0 w + into es D w c" by (rule Cons.prems(3))
    moreover have "c1 w = c w + k w * c u" by (rule c1)
    ultimately show ?thesis by linarith
  qed
  have "counts_from es L c1 v = c0 v + into es (insert u D \<union> set L) v (counts_from es L c1)"
    by (rule Cons.IH[OF ts dj rec])
  moreover have "counts_from es (u # L) c = counts_from es L c1"
    by (simp add: counts_from_def c1_def)
  moreover have "D \<union> set (u # L) = insert u D \<union> set L" by simp
  ultimately show ?case by (simp only:)
qed

lemma counts_recurrence:
  assumes "well_formed g"
  shows "counts g v = (if v = src g then 1 else 0)
           + sum_list (map (\<lambda>e. counts g (fst e)) (filter (\<lambda>e. fst (snd e) = v) (edges g)))"
proof -
  note wf = well_formed_vertices[OF assms]
  define c0 where "c0 = (\<lambda>_. 0::int)(src g := 1)"
  have i: "c0 w = c0 w + into (edges g) {} w c0" for w by (simp add: into_def)
  have "counts_from (edges g) (topo g) c0 v
          = c0 v + into (edges g) ({} \<union> set (topo g)) v (counts_from (edges g) (topo g) c0)"
    by (rule counts_from_recurrence[OF well_formed_topo_sorted[OF assms] _ i]) simp
  then have r: "counts g v = c0 v + into (edges g) (set (topo g)) v (counts g)"
    by (simp add: counts_def c0_def)
  have "filter (\<lambda>e. fst (snd e) = v \<and> fst e \<in> set (topo g)) (edges g)
       = filter (\<lambda>e. fst (snd e) = v) (edges g)"
    by (rule filter_cong) (use wf in auto)
  then show ?thesis using r by (simp add: into_def c0_def)
qed

lemma reachable_step: "reachable es s u \<Longrightarrow> e \<in> set es \<Longrightarrow> fst e = u \<Longrightarrow> reachable es s (fst (snd e))"
  unfolding reachable_def edge_rel_def
  by (metis (mono_tags, lifting) image_eqI rtrancl.rtrancl_into_rtrancl)

lemma sound_bump:
  assumes "sound_counts es s c" and "(u, t) \<in> set (map (\<lambda>e. (fst e, snd e)) es)"
  shows "sound_counts es s (bump u t c)"
proof -
  obtain e where e: "e \<in> set es" "fst e = u" "snd e = t" using assms(2) by auto
  have nn: "\<And>x. 0 \<le> c x" and re: "\<And>x. 0 < c x \<Longrightarrow> reachable es s x"
    using assms(1) by (auto simp: sound_counts_def)
  have "0 \<le> bump u t c x \<and> (0 < bump u t c x \<longrightarrow> reachable es s x)" for x
  proof (cases "x = fst t")
    case False
    then show ?thesis using nn re by (simp add: bump_def)
  next
    case True
    have v: "bump u t c x = c x + c u" using True by (simp add: bump_def)
    have "reachable es s x" if "0 < c x + c u"
    proof (cases "0 < c x")
      case True
      then show ?thesis by (rule re)
    next
      case False
      then have "0 < c u" using that by simp
      then have "reachable es s u" by (rule re)
      then show ?thesis using reachable_step[OF _ e(1) e(2)] e(3) True by simp
    qed
    then show ?thesis using nn[of x] nn[of u] v by simp
  qed
  then show ?thesis unfolding sound_counts_def by blast
qed

lemma sound_fold_bump:
  "sound_counts es s c \<Longrightarrow> set ts \<subseteq> snd ` {e \<in> set es. fst e = u} \<Longrightarrow>
   sound_counts es s (fold (bump u) ts c)"
proof (induction ts arbitrary: c)
  case Nil
  then show ?case by simp
next
  case (Cons t ts)
  have "(u, t) \<in> set (map (\<lambda>e. (fst e, snd e)) es)" using Cons.prems(2) by force
  then have "sound_counts es s (bump u t c)" by (rule sound_bump[OF Cons.prems(1)])
  then show ?case using Cons.IH Cons.prems(2) by simp
qed

lemma sound_counts_from: "sound_counts es s c \<Longrightarrow> sound_counts es s (counts_from es L c)"
proof (induction L arbitrary: c)
  case Nil
  then show ?case by (simp add: counts_from_def)
next
  case (Cons u L)
  have "set (build_adj es u) \<subseteq> snd ` {e \<in> set es. fst e = u}"
    by (auto simp: build_adj_eq)
  then have "sound_counts es s (fold (bump u) (build_adj es u) c)"
    by (rule sound_fold_bump[OF Cons.prems])
  then have "sound_counts es s (counts_from es L (fold (bump u) (build_adj es u) c))"
    by (rule Cons.IH)
  then show ?case by (simp add: counts_from_def)
qed

lemma counts_sound: "sound_counts (edges g) (src g) (counts g)"
  unfolding counts_def
  by (rule sound_counts_from) (simp add: sound_counts_def reachable_def)

lemma counts_nonneg: "0 \<le> counts g x"
  using counts_sound[of g] by (simp add: sound_counts_def)

lemma counts_pos_reachable: "0 < counts g x \<Longrightarrow> reachable (edges g) (src g) x"
  using counts_sound[of g] by (simp add: sound_counts_def)

lemma sum_list_all_zero: "(\<forall>x \<in> set xs. f x = (0::int)) \<Longrightarrow> sum_list (map f xs) = 0"
  by (induction xs) auto

lemma sum_list_nonneg: "(\<forall>x \<in> set xs. (0::int) \<le> f x) \<Longrightarrow> 0 \<le> sum_list (map f xs)"
  by (induction xs) auto

lemma sum_list_member_le:
  "(\<forall>x \<in> set xs. (0::int) \<le> f x) \<Longrightarrow> a \<in> set xs \<Longrightarrow> f a \<le> sum_list (map f xs)"
proof (induction xs)
  case Nil
  then show ?case by simp
next
  case (Cons x xs)
  have "0 \<le> sum_list (map f xs)" using Cons.prems(1) by (intro sum_list_nonneg) simp
  then show ?case using Cons by auto
qed

lemma edge_in_rel: "e \<in> set es \<Longrightarrow> (fst e, fst (snd e)) \<in> edge_rel es"
  by (force simp: edge_rel_def)

lemma counts_pred_of_src:
  assumes "well_formed g" and "e \<in> set (edges g)" and "fst (snd e) = src g"
  shows "counts g (fst e) = 0"
proof (rule ccontr)
  assume "counts g (fst e) \<noteq> 0"
  then have "0 < counts g (fst e)" using counts_nonneg[of g "fst e"] by simp
  then have "(src g, fst e) \<in> (edge_rel (edges g))\<^sup>*"
    using counts_pos_reachable by (simp add: reachable_def)
  moreover have "(fst e, src g) \<in> edge_rel (edges g)"
    using edge_in_rel[OF assms(2)] assms(3) by simp
  ultimately have "(src g, src g) \<in> (edge_rel (edges g))\<^sup>+" by (rule rtrancl_into_trancl1)
  then show False using well_formed_acyclic[OF assms(1)] by (auto simp: has_cycle_def)
qed

lemma counts_src: "well_formed g \<Longrightarrow> counts g (src g) = 1"
proof -
  assume wf: "well_formed g"
  have "sum_list (map (\<lambda>e. counts g (fst e)) (filter (\<lambda>e. fst (snd e) = src g) (edges g))) = 0"
    by (rule sum_list_all_zero) (use counts_pred_of_src[OF wf] in auto)
  then show ?thesis using counts_recurrence[OF wf, of "src g"] by simp
qed

lemma counts_edge_mono:
  assumes wf: "well_formed g" and e: "e \<in> set (edges g)" and p: "0 < counts g (fst e)"
  shows "0 < counts g (fst (snd e))"
proof (cases "fst (snd e) = src g")
  case True
  then show ?thesis using counts_src[OF wf] by simp
next
  case False
  have "counts g (fst e)
      \<le> sum_list (map (\<lambda>e. counts g (fst e)) (filter (\<lambda>e'. fst (snd e') = fst (snd e)) (edges g)))"
    by (rule sum_list_member_le) (use e counts_nonneg in auto)
  then show ?thesis using counts_recurrence[OF wf, of "fst (snd e)"] False p by simp
qed

lemma reachable_counts_pos:
  assumes wf: "well_formed g" and r: "reachable (edges g) (src g) x"
  shows "0 < counts g x"
  using r unfolding reachable_def
proof (induction rule: rtrancl_induct)
  case base
  show ?case using counts_src[OF wf] by simp
next
  case (step y z)
  from step.hyps(2) obtain e where "e \<in> set (edges g)" "fst e = y" "fst (snd e) = z"
    by (auto simp: edge_rel_def)
  then show ?case using counts_edge_mono[OF wf, of e] step.IH by simp
qed

lemma counts_zero_iff:
  "well_formed g \<Longrightarrow> counts g x = 0 \<longleftrightarrow> \<not> reachable (edges g) (src g) x"
  using reachable_counts_pos[of g x] counts_pos_reachable[of g x] counts_nonneg[of g x]
  by (metis less_irrefl order_le_less)

lemma path_counts_constructed:
  assumes "iteration_order (vertex_set es source) vs" and "DAG_init vs es source = Inr g"
  shows "path_counts g = Inr (lift (vertex_set es source) (counts g))"
proof -
  note c = DAG_init_well_formed[OF assms]
  have "set (vertices g) = vertex_set es source"
    using assms(1) c(4) by (simp add: iteration_order_def)
  then show ?thesis using path_counts_lift[OF c(1)] by simp
qed

lemma dom_lift: "dom (lift V c) = V"
  by (auto simp: lift_def dom_def)

text \<open>
  C2. In a constructed graph, the count of a vertex other than the source with an
  incoming edge is the sum of the counts of the origins of its incoming edges, one term
  for each edge of the edge list, parallel edges included. The dictionary returned has
  exactly the vertices as keys, so every count read in the sum is there.
\<close>

theorem path_counts_recurrence:
  assumes "iteration_order (vertex_set es source) vs"
    and "DAG_init vs es source = Inr g"
    and "v \<noteq> source"
    and "\<exists>e \<in> set es. fst (snd e) = v"
  shows "\<exists>cnt. path_counts g = Inr cnt \<and> dom cnt = vertex_set es source
           \<and> cnt v = Some (sum_list (map (\<lambda>(u, v', w). the (cnt u))
                                      (filter (\<lambda>(u, v', w). v' = v) es)))"
proof -
  note c = DAG_init_well_formed[OF assms(1,2)]
  let ?V = "vertex_set es source"
  let ?cnt = "lift ?V (counts g)"
  have vV: "v \<in> ?V" using assms(4) by (auto simp: vertex_set_eq)
  have m: "map (\<lambda>(u, v', w). the (?cnt u)) (filter (\<lambda>e. fst (snd e) = v) es)
      = map (\<lambda>e. counts g (fst e)) (filter (\<lambda>e. fst (snd e) = v) es)"
    by (rule map_cong) (force simp: lift_def vertex_set_eq)+
  have f: "filter (\<lambda>(u, v', w). v' = v) es = filter (\<lambda>e. fst (snd e) = v) es"
    by (rule filter_cong) auto
  have "counts g v
      = sum_list (map (\<lambda>e. counts g (fst e)) (filter (\<lambda>e. fst (snd e) = v) es))"
    using counts_recurrence[OF c(1), of v] assms(3) by (simp add: c)
  then have "counts g v = sum_list (map (\<lambda>(u, v', w). the (?cnt u))
                                      (filter (\<lambda>(u, v', w). v' = v) es))"
    by (simp only: m f)
  moreover have "?cnt v = Some (counts g v)" using vV by (simp add: lift_def)
  ultimately have "?cnt v = Some (sum_list (map (\<lambda>(u, v', w). the (?cnt u))
                                      (filter (\<lambda>(u, v', w). v' = v) es)))"
    by (simp only:)
  then show ?thesis
    using path_counts_constructed[OF assms(1,2)] dom_lift[of ?V "counts g"] by blast
qed

theorem path_counts_recurrence_witness:
  "iteration_order (vertex_set [(0, 1, 5), (0, 1, 5), (1, 2, 0), (0, 2, 1)] 0) [0, 1, 2]
   \<and> DAG_init [0, 1, 2] [(0, 1, 5), (0, 1, 5), (1, 2, 0), (0, 2, 1)] 0
       = Inr \<lparr>edges = [(0, 1, 5), (0, 1, 5), (1, 2, 0), (0, 2, 1)], src = 0,
              vertices = [0, 1, 2], topo = [0, 1, 2]\<rparr>
   \<and> (\<exists>cnt. path_counts \<lparr>edges = [(0, 1, 5), (0, 1, 5), (1, 2, 0), (0, 2, 1)], src = 0,
                          vertices = [0, 1, 2], topo = [0, 1, 2]\<rparr> = Inr cnt
          \<and> map cnt [0, 1, 2] = [Some 1, Some 2, Some 3]
          \<and> cnt 1 = Some (the (cnt 0) + the (cnt 0))
          \<and> cnt 2 = Some (the (cnt 1) + the (cnt 0)))"
proof -
  let ?es = "[(0, 1, 5), (0, 1, 5), (1, 2, 0), (0, 2, 1)] :: edge list"
  let ?g = "\<lparr>edges = ?es, src = 0, vertices = [0, 1, 2], topo = [0, 1, 2]\<rparr>"
  have io: "iteration_order (vertex_set ?es 0) [0, 1, 2]"
    by (auto simp: iteration_order_def vertex_set_eq)
  have r: "DAG_init [0, 1, 2] ?es 0 = Inr ?g"
    by (simp add: DAG_init_def validate_dag_def init_indeg_def build_adj_eq Let_def)
  have ev: "case path_counts ?g of Inl e \<Rightarrow> False
            | Inr cnt \<Rightarrow> map cnt [0, 1, 2] = [Some 1, Some 2, Some 3]"
    by (simp add: path_counts_def adj_def build_adj_eq Let_def)
  have n1: "(1::int) \<noteq> 0" "\<exists>e \<in> set ?es. fst (snd e) = 1" by simp_all
  have n2: "(2::int) \<noteq> 0" "\<exists>e \<in> set ?es. fst (snd e) = 2" by simp_all
  from path_counts_recurrence[OF io r n1] path_counts_recurrence[OF io r n2] ev
  show ?thesis using io r by (auto split: sum.splits)
qed

text \<open>
  C3. In a constructed graph the count of the source is 1, whether or not edges lead
  into it, and the count of every vertex that cannot be reached from the source is 0.
\<close>

theorem path_counts_source_unreachable:
  assumes "iteration_order (vertex_set es source) vs"
    and "DAG_init vs es source = Inr g"
  shows "\<exists>cnt. path_counts g = Inr cnt \<and> cnt source = Some 1
           \<and> (\<forall>v \<in> vertex_set es source. \<not> reachable es source v \<longrightarrow> cnt v = Some 0)"
proof -
  note c = DAG_init_well_formed[OF assms]
  let ?V = "vertex_set es source"
  have "lift ?V (counts g) source = Some 1"
    using counts_src[OF c(1)] by (simp add: lift_def c vertex_set_eq)
  moreover have "lift ?V (counts g) v = Some 0" if "v \<in> ?V" "\<not> reachable es source v" for v
    using counts_zero_iff[OF c(1), of v] that by (simp add: lift_def c)
  ultimately show ?thesis using path_counts_constructed[OF assms] by blast
qed

lemma unreachable_outside:
  assumes "a \<in> S" and "b \<notin> S" and "\<forall>e \<in> set es. fst e \<in> S \<longrightarrow> fst (snd e) \<in> S"
  shows "\<not> reachable es a b"
proof
  assume "reachable es a b"
  then have "(a, b) \<in> (edge_rel es)\<^sup>*" by (simp add: reachable_def)
  then have "b \<in> S"
    by (induction rule: rtrancl_induct) (use assms in \<open>auto simp: edge_rel_def\<close>)
  then show False using assms(2) by simp
qed

theorem path_counts_source_unreachable_witness:
  "iteration_order (vertex_set [(2, 0, 1), (0, 1, 1)] 0) [0, 1, 2]
   \<and> DAG_init [0, 1, 2] [(2, 0, 1), (0, 1, 1)] 0
       = Inr \<lparr>edges = [(2, 0, 1), (0, 1, 1)], src = 0, vertices = [0, 1, 2], topo = [2, 0, 1]\<rparr>
   \<and> 2 \<in> vertex_set [(2, 0, 1), (0, 1, 1)] 0
   \<and> \<not> reachable [(2, 0, 1), (0, 1, 1)] 0 2
   \<and> (\<exists>cnt. path_counts \<lparr>edges = [(2, 0, 1), (0, 1, 1)], src = 0, vertices = [0, 1, 2],
                          topo = [2, 0, 1]\<rparr> = Inr cnt
          \<and> cnt 0 = Some 1 \<and> cnt 2 = Some 0)"
proof -
  let ?es = "[(2, 0, 1), (0, 1, 1)] :: edge list"
  let ?g = "\<lparr>edges = ?es, src = 0, vertices = [0, 1, 2], topo = [2, 0, 1]\<rparr>"
  have io: "iteration_order (vertex_set ?es 0) [0, 1, 2]"
    by (auto simp: iteration_order_def vertex_set_eq)
  have r: "DAG_init [0, 1, 2] ?es 0 = Inr ?g"
    by (simp add: DAG_init_def validate_dag_def init_indeg_def build_adj_eq Let_def)
  have v: "2 \<in> vertex_set ?es 0" by (simp add: vertex_set_eq)
  have u: "\<not> reachable ?es 0 2"
    by (rule unreachable_outside[where S = "{0, 1}"]) simp_all
  from path_counts_source_unreachable[OF io r] v u
  show ?thesis using io r by blast
qed

section \<open>Neighbours\<close>

lemma enunciado_order: "iteration_order (vertex_set enunciado 0) [0, 1, 2, 3, 4, 5, 6, 7, 8]"
  by (auto simp: iteration_order_def vertex_set_eq enunciado_def)

lemma enunciado_init: "DAG_init [0, 1, 2, 3, 4, 5, 6, 7, 8] enunciado 0 = Inr enunciado_dag"
  by (simp add: DAG_init_def validate_dag_def init_indeg_def build_adj_eq Let_def
      enunciado_def enunciado_dag_def)

lemma caso_fail_3b_order: "iteration_order (vertex_set caso_fail_3b 0) [0, 1, 2, 3, 4]"
  by (auto simp: iteration_order_def vertex_set_eq caso_fail_3b_def)

lemma caso_fail_3b_init: "DAG_init [0, 1, 2, 3, 4] caso_fail_3b 0 = Inr caso_fail_3b_dag"
  by (simp add: DAG_init_def validate_dag_def init_indeg_def build_adj_eq Let_def
      caso_fail_3b_def caso_fail_3b_dag_def)

lemma neighbors_of_eq:
  "neighbors_of g v = (fst ` {e \<in> set (edges g). fst (snd e) = v}
                       \<union> (\<lambda>e. fst (snd e)) ` {e \<in> set (edges g). fst e = v}) - {v}"
  by (auto simp: neighbors_of_def Let_def adj_def rev_adj_def build_adj_eq build_rev_adj_eq
      image_iff)

lemma well_formed_no_loop: "well_formed g \<Longrightarrow> e \<in> set (edges g) \<Longrightarrow> fst e \<noteq> fst (snd e)"
  using well_formed_rank[of g] by (metis less_irrefl)

text \<open>
  C7. In a constructed graph, \<open>neighbors_of v\<close> never contains \<open>v\<close>, and \<open>u\<close> is in it
  exactly when the edge list has an edge from \<open>u\<close> to \<open>v\<close> or from \<open>v\<close> to \<open>u\<close>.
\<close>

theorem neighbors_of_iff:
  assumes "iteration_order (vertex_set es source) vs"
    and "DAG_init vs es source = Inr g"
  shows "v \<notin> neighbors_of g v
       \<and> (u \<in> neighbors_of g v \<longleftrightarrow> (\<exists>w. (u, v, w) \<in> set es \<or> (v, u, w) \<in> set es))"
proof -
  note c = DAG_init_well_formed[OF assms]
  have nl: "\<And>a w. (a, a, w) \<notin> set es"
    using well_formed_no_loop[OF c(1)] c(2) by fastforce
  have "u \<in> neighbors_of g v \<longleftrightarrow> u \<noteq> v \<and> (\<exists>w. (u, v, w) \<in> set es \<or> (v, u, w) \<in> set es)"
    unfolding neighbors_of_eq c(2) by force
  then show ?thesis using nl by (auto simp: neighbors_of_eq)
qed

theorem neighbors_of_iff_witness:
  "iteration_order (vertex_set enunciado 0) [0, 1, 2, 3, 4, 5, 6, 7, 8]
   \<and> DAG_init [0, 1, 2, 3, 4, 5, 6, 7, 8] enunciado 0 = Inr enunciado_dag
   \<and> 8 \<notin> neighbors_of enunciado_dag 8
   \<and> 7 \<in> neighbors_of enunciado_dag 8 \<and> (7, 8, 2) \<in> set enunciado
   \<and> 3 \<in> neighbors_of enunciado_dag 4 \<and> (4, 3, 5) \<in> set enunciado
   \<and> 0 \<notin> neighbors_of enunciado_dag 8
   \<and> neighbors_of enunciado_dag 8 = {3, 4, 5, 7}"
proof -
  have a: "neighbors_of enunciado_dag 8 = {3, 4, 5, 7}"
    by (simp add: neighbors_of_def Let_def adj_def rev_adj_def build_adj_eq build_rev_adj_eq
        enunciado_dag_def enunciado_def insert_commute)
  have b: "(7, 8, 2) \<in> set enunciado" "(4, 3, 5) \<in> set enunciado"
    by (simp_all add: enunciado_def)
  from neighbors_of_iff[OF enunciado_order enunciado_init, of 8 7]
       neighbors_of_iff[OF enunciado_order enunciado_init, of 4 3]
       neighbors_of_iff[OF enunciado_order enunciado_init, of 8 0]
  show ?thesis using enunciado_order enunciado_init a b by auto
qed

section \<open>The insertion proposal\<close>

lemma pos_sum_nonneg: "0 \<le> pos_sum cs"
  unfolding pos_sum_def by (induction cs) auto

lemma pos_sum_Cons: "pos_sum ((u, c) # cs) = (if 0 < c then c else 0) + pos_sum cs"
  by (simp add: pos_sum_def)

lemma greedy_total:
  "fst (greedy m cs (t, ch)) > m \<longleftrightarrow> t + pos_sum cs > m"
proof (induction m cs "(t, ch)" arbitrary: t ch rule: greedy.induct)
  case (1 m t ch)
  show ?case by (simp add: pos_sum_def)
next
  case (2 m u c rest t ch)
  show ?case
  proof (cases "c \<le> 0")
    case True
    then show ?thesis using 2(1) by (simp add: pos_sum_Cons)
  next
    case False
    show ?thesis
    proof (cases "t + c > m")
      case True
      then show ?thesis using False pos_sum_nonneg[of rest] by (simp add: pos_sum_Cons Let_def)
    next
      case f: False
      have "fst (greedy m rest (t + c, ch @ [u])) > m \<longleftrightarrow> t + c + pos_sum rest > m"
        using 2(2)[OF False refl refl] f by simp
      then show ?thesis using False f by (simp add: pos_sum_Cons Let_def add.assoc)
    qed
  qed
qed

lemma greedy_no_break:
  "\<not> fst (greedy m cs (t, ch)) > m \<Longrightarrow> fst (greedy m cs (t, ch)) = t + pos_sum cs"
proof (induction m cs "(t, ch)" arbitrary: t ch rule: greedy.induct)
  case (1 m t ch)
  show ?case by (simp add: pos_sum_def)
next
  case (2 m u c rest t ch)
  show ?case
  proof (cases "c \<le> 0")
    case True
    then show ?thesis using 2(1) 2(3) by (simp add: pos_sum_Cons)
  next
    case False
    have nb: "\<not> t + c > m" using 2(3) False by (auto simp: Let_def split: if_splits)
    then have "fst (greedy m rest (t + c, ch @ [u])) = t + c + pos_sum rest"
      using 2(2)[OF False refl refl] 2(3) False by (simp add: Let_def)
    then show ?thesis using False nb by (simp add: pos_sum_Cons Let_def add.assoc)
  qed
qed

lemma greedy_chosen:
  assumes "\<forall>x \<in> set cs. snd x = f (fst x)" and "distinct (map fst cs)"
  shows "\<exists>new. snd (greedy m cs (t, ch)) = ch @ new
           \<and> fst (greedy m cs (t, ch)) = t + sum_list (map f new)
           \<and> distinct new \<and> set new \<subseteq> fst ` set cs \<and> (\<forall>u \<in> set new. 0 < f u)"
  using assms
proof (induction m cs "(t, ch)" arbitrary: t ch rule: greedy.induct)
  case (1 m t ch)
  show ?case by simp
next
  case (2 m u c rest t ch)
  have c: "c = f u" and r: "\<forall>x \<in> set rest. snd x = f (fst x)"
    and d: "distinct (map fst rest)" and u: "u \<notin> fst ` set rest"
    using 2(3,4) by auto
  show ?case
  proof (cases "c \<le> 0")
    case True
    from 2(1)[OF True r d] obtain new where
      "snd (greedy m rest (t, ch)) = ch @ new"
      "fst (greedy m rest (t, ch)) = t + sum_list (map f new)"
      "distinct new" "set new \<subseteq> fst ` set rest" "\<forall>u \<in> set new. 0 < f u"
      by blast
    then show ?thesis using True by (intro exI[of _ new]) auto
  next
    case False
    show ?thesis
    proof (cases "t + c > m")
      case True
      then show ?thesis using False c by (intro exI[of _ "[u]"]) (simp add: Let_def)
    next
      case f: False
      from 2(2)[OF False refl refl _ r d] f obtain new where n:
        "snd (greedy m rest (t + c, ch @ [u])) = (ch @ [u]) @ new"
        "fst (greedy m rest (t + c, ch @ [u])) = t + c + sum_list (map f new)"
        "distinct new" "set new \<subseteq> fst ` set rest" "\<forall>u \<in> set new. 0 < f u"
        by auto
      have "snd (greedy m ((u, c) # rest) (t, ch)) = ch @ (u # new)"
           "fst (greedy m ((u, c) # rest) (t, ch)) = t + sum_list (map f (u # new))"
        using False f n(1,2) c by (simp_all add: Let_def)
      moreover have "distinct (u # new)" "set (u # new) \<subseteq> fst ` set ((u, c) # rest)"
           "\<forall>x \<in> set (u # new). 0 < f x"
        using n(3,4,5) u False c by auto
      ultimately show ?thesis by blast
    qed
  qed
qed

lemma get_or_lift: "get_or (lift V c) u 0 = (if u \<in> V then c u else 0)"
  by (simp add: get_or_def lift_def)

lemma max_of_nonempty: "xs \<noteq> [] \<Longrightarrow> max_of xs = Inr (Max (set xs))"
  by (cases xs) (auto simp: max_of_def simp flip: Max.set_eq_fold)

lemma propose_eq:
  assumes "well_formed g"
  shows "propose_vprime_insertion g v w =
     (case greedy (threshold g v) (cands g v) (0, []) of
        (tot, chosen) \<Rightarrow>
          if tot \<le> threshold g v then Inr (False, [], Impossible v tot (threshold g v))
          else Inr (True, map (\<lambda>u. (u, Max (set (vertices g)) + 1, w)) chosen,
                    Inserted (Max (set (vertices g)) + 1) chosen tot (threshold g v)))"
proof -
  note wf = well_formed_vertices[OF assms]
  let ?cnt = "lift (set (vertices g)) (counts g)"
  have ne: "vertices g \<noteq> []" using wf(1) by auto
  have m: "map (\<lambda>u. (u, get_or ?cnt u 0)) (filter (\<lambda>u. u \<notin> neighbors_of g v) (vertices g))
         = map (\<lambda>u. (u, counts g u)) (filter (\<lambda>u. u \<notin> neighbors_of g v) (vertices g))"
    by (rule map_cong) (simp_all add: get_or_lift)
  have t: "get_or ?cnt v 0 = threshold g v" by (simp add: get_or_lift threshold_def)
  show ?thesis
    unfolding propose_vprime_insertion_def path_counts_lift[OF assms]
    by (simp add: Let_def m t max_of_nonempty[OF ne] cands_def split: prod.splits)
qed

lemma sum_list_mset_cong:
  "mset xs = mset ys \<Longrightarrow> sum_list (map f xs) = (sum_list (map f ys) :: int)"
  by (metis mset_map sum_mset_sum_list)

lemma pos_sum_sort_key: "pos_sum (sort_key k cs) = pos_sum cs"
proof -
  have "mset (filter (\<lambda>x. 0 < snd x) (sort_key k cs)) = mset (filter (\<lambda>x. 0 < snd x) cs)"
    by simp
  then show ?thesis unfolding pos_sum_def by (rule sum_list_mset_cong)
qed

lemma pos_sum_map:
  "pos_sum (map (\<lambda>u. (u, f u)) ys) = sum_list (map f (filter (\<lambda>u. 0 < f u) ys))"
  unfolding pos_sum_def by (induction ys) auto

lemma pos_sum_cands:
  assumes "well_formed g"
  shows "pos_sum (cands g v)
     = (\<Sum>u \<in> {u \<in> set (vertices g). u \<notin> neighbors_of g v \<and> 0 < counts g u}. counts g u)"
proof -
  note wf = well_formed_vertices[OF assms]
  let ?ys = "filter (\<lambda>u. 0 < counts g u) (filter (\<lambda>u. u \<notin> neighbors_of g v) (vertices g))"
  have "pos_sum (cands g v) = sum_list (map (counts g) ?ys)"
    by (simp add: cands_def pos_sum_sort_key pos_sum_map)
  also have "\<dots> = sum (counts g) (set ?ys)"
    using wf(4) by (intro sum_list_distinct_conv_sum_set) simp
  also have "set ?ys = {u \<in> set (vertices g). u \<notin> neighbors_of g v \<and> 0 < counts g u}"
    by auto
  finally show ?thesis .
qed

lemma cands_props:
  assumes "well_formed g"
  shows "\<forall>x \<in> set (cands g v). snd x = counts g (fst x)"
    and "distinct (map fst (cands g v))"
    and "fst ` set (cands g v) = {u \<in> set (vertices g). u \<notin> neighbors_of g v}"
    and "sorted (map (\<lambda>x. - snd x) (cands g v))"
proof -
  note wf = well_formed_vertices[OF assms]
  let ?ys = "filter (\<lambda>u. u \<notin> neighbors_of g v) (vertices g)"
  let ?cs = "map (\<lambda>u. (u, counts g u)) ?ys"
  show "\<forall>x \<in> set (cands g v). snd x = counts g (fst x)"
    by (auto simp: cands_def)
  have "mset (cands g v) = mset ?cs" by (simp add: cands_def)
  then have "mset (map fst (cands g v)) = mset (map fst ?cs)"
    by (metis mset_map)
  moreover have "map fst ?cs = ?ys" by (simp add: comp_def)
  moreover have "distinct ?ys" using wf(4) by simp
  ultimately show "distinct (map fst (cands g v))"
    by (metis mset_eq_imp_distinct_iff)
  show "fst ` set (cands g v) = {u \<in> set (vertices g). u \<notin> neighbors_of g v}"
    by (force simp: cands_def)
  show "sorted (map (\<lambda>x. - snd x) (cands g v))"
    by (simp add: cands_def)
qed

lemma constructed_facts:
  assumes "iteration_order (vertex_set es source) vs" and "DAG_init vs es source = Inr g"
  shows "well_formed g" and "set (vertices g) = vertex_set es source"
    and "path_counts g = Inr (lift (vertex_set es source) (counts g))"
    and "edges g = es" and "src g = source"
  using DAG_init_well_formed[OF assms] path_counts_constructed[OF assms] assms(1)
  by (simp_all add: iteration_order_def)

text \<open>
  C5. In a constructed graph, for a vertex \<open>v\<close> of the graph and any default weight, the
  proposal succeeds exactly when the counts of the vertices that are not neighbours of
  \<open>v\<close> and have a positive count sum to more than the count of \<open>v\<close>; a failed proposal
  carries no edges.
\<close>

theorem propose_success_iff:
  assumes "iteration_order (vertex_set es source) vs"
    and "DAG_init vs es source = Inr g"
    and "v \<in> vertex_set es source"
  shows "\<exists>cnt ok new_edges msg.
           path_counts g = Inr cnt
         \<and> propose_vprime_insertion g v w = Inr (ok, new_edges, msg)
         \<and> (ok \<longleftrightarrow> the (cnt v)
               < (\<Sum>u \<in> {u \<in> vertex_set es source. u \<notin> neighbors_of g v \<and> 0 < the (cnt u)}.
                    the (cnt u)))
         \<and> (ok \<or> new_edges = [])"
proof -
  note c = constructed_facts[OF assms(1,2)]
  let ?V = "vertex_set es source"
  let ?cnt = "lift ?V (counts g)"
  let ?S = "{u \<in> ?V. u \<notin> neighbors_of g v \<and> 0 < the (?cnt u)}"
  obtain tot chosen where gr: "greedy (threshold g v) (cands g v) (0, []) = (tot, chosen)"
    by (cases "greedy (threshold g v) (cands g v) (0, [])")
  have th: "threshold g v = counts g v" "the (?cnt v) = counts g v"
    using assms(3) by (simp_all add: threshold_def c(2) lift_def)
  have S: "?S = {u \<in> set (vertices g). u \<notin> neighbors_of g v \<and> 0 < counts g u}"
    by (auto simp: c(2) lift_def)
  have "sum (\<lambda>u. the (?cnt u)) ?S = sum (counts g) ?S"
    by (rule sum.cong) (simp_all add: lift_def)
  then have sm: "sum (\<lambda>u. the (?cnt u)) ?S = pos_sum (cands g v)"
    by (simp only: S pos_sum_cands[OF c(1)])
  have ok: "threshold g v < tot \<longleftrightarrow> threshold g v < pos_sum (cands g v)"
    using greedy_total[of "threshold g v" "cands g v" 0 "[]"] by (simp add: gr)
  show ?thesis
  proof (cases "tot \<le> threshold g v")
    case True
    then have "propose_vprime_insertion g v w
        = Inr (False, [], Impossible v tot (threshold g v))"
      by (simp add: propose_eq[OF c(1)] gr)
    moreover have "\<not> the (?cnt v) < sum (\<lambda>u. the (?cnt u)) ?S"
      using True ok by (simp add: sm th)
    ultimately show ?thesis using c(3) by blast
  next
    case False
    then have "propose_vprime_insertion g v w
        = Inr (True, map (\<lambda>u. (u, Max (set (vertices g)) + 1, w)) chosen,
               Inserted (Max (set (vertices g)) + 1) chosen tot (threshold g v))"
      by (simp add: propose_eq[OF c(1)] gr)
    moreover have "the (?cnt v) < sum (\<lambda>u. the (?cnt u)) ?S"
      using False ok by (simp add: sm th)
    ultimately show ?thesis using c(3) by blast
  qed
qed

lemma enunciado_counts:
  "path_counts enunciado_dag = Inr cnt \<Longrightarrow>
   map cnt [0, 1, 2, 3, 4, 5, 6, 7, 8, 9]
     = [Some 1, Some 1, Some 1, Some 3, Some 2, Some 1, Some 1, Some 4, Some 10, None]"
  by (auto simp: path_counts_def adj_def build_adj_eq Let_def enunciado_dag_def enunciado_def)

lemma enunciado_propose:
  "propose_vprime_insertion enunciado_dag 8 0
     = Inr (True, [(8, 9, 0), (0, 9, 0)], Inserted 9 [8, 0] 11 10)"
  by (simp add: propose_vprime_insertion_def path_counts_def adj_def rev_adj_def build_adj_eq
      build_rev_adj_eq neighbors_of_def get_or_def max_of_def Let_def
      enunciado_dag_def enunciado_def)

lemma caso_fail_3b_propose:
  "propose_vprime_insertion caso_fail_3b_dag 4 0 = Inr (False, [], Impossible 4 4 4)"
  by (simp add: propose_vprime_insertion_def path_counts_def adj_def rev_adj_def build_adj_eq
      build_rev_adj_eq neighbors_of_def get_or_def max_of_def Let_def
      caso_fail_3b_dag_def caso_fail_3b_def)

theorem propose_success_iff_witness:
  "iteration_order (vertex_set enunciado 0) [0, 1, 2, 3, 4, 5, 6, 7, 8]
   \<and> DAG_init [0, 1, 2, 3, 4, 5, 6, 7, 8] enunciado 0 = Inr enunciado_dag
   \<and> 8 \<in> vertex_set enunciado 0
   \<and> propose_vprime_insertion enunciado_dag 8 0
        = Inr (True, [(8, 9, 0), (0, 9, 0)], Inserted 9 [8, 0] 11 10)
   \<and> (\<exists>cnt. path_counts enunciado_dag = Inr cnt
          \<and> the (cnt 8) < (\<Sum>u \<in> {u \<in> vertex_set enunciado 0.
                 u \<notin> neighbors_of enunciado_dag 8 \<and> 0 < the (cnt u)}. the (cnt u)))
   \<and> iteration_order (vertex_set caso_fail_3b 0) [0, 1, 2, 3, 4]
   \<and> DAG_init [0, 1, 2, 3, 4] caso_fail_3b 0 = Inr caso_fail_3b_dag
   \<and> 4 \<in> vertex_set caso_fail_3b 0
   \<and> propose_vprime_insertion caso_fail_3b_dag 4 0 = Inr (False, [], Impossible 4 4 4)
   \<and> (\<exists>cnt. path_counts caso_fail_3b_dag = Inr cnt
          \<and> \<not> the (cnt 4) < (\<Sum>u \<in> {u \<in> vertex_set caso_fail_3b 0.
                 u \<notin> neighbors_of caso_fail_3b_dag 4 \<and> 0 < the (cnt u)}. the (cnt u)))"
proof -
  have v8: "8 \<in> vertex_set enunciado 0" by (simp add: vertex_set_eq enunciado_def)
  have v4: "4 \<in> vertex_set caso_fail_3b 0" by (simp add: vertex_set_eq caso_fail_3b_def)
  from propose_success_iff[OF enunciado_order enunciado_init v8, of 0]
  have a: "\<exists>cnt. path_counts enunciado_dag = Inr cnt
          \<and> the (cnt 8) < (\<Sum>u \<in> {u \<in> vertex_set enunciado 0.
                 u \<notin> neighbors_of enunciado_dag 8 \<and> 0 < the (cnt u)}. the (cnt u))"
    unfolding enunciado_propose by blast
  from propose_success_iff[OF caso_fail_3b_order caso_fail_3b_init v4, of 0]
  have b: "\<exists>cnt. path_counts caso_fail_3b_dag = Inr cnt
          \<and> \<not> the (cnt 4) < (\<Sum>u \<in> {u \<in> vertex_set caso_fail_3b 0.
                 u \<notin> neighbors_of caso_fail_3b_dag 4 \<and> 0 < the (cnt u)}. the (cnt u))"
    unfolding caso_fail_3b_propose by blast
  show ?thesis
    using a b v8 v4 enunciado_order enunciado_init caso_fail_3b_order caso_fail_3b_init
      enunciado_propose caso_fail_3b_propose
    by (intro conjI) assumption+
qed

text \<open>
  C6. When the proposal for a vertex \<open>v\<close> of a constructed graph succeeds, every proposed
  edge leads from a chosen parent to the same new vertex, one more than the largest
  vertex and hence larger than all of them, with the default weight; the parents are
  pairwise different vertices of the graph, none is a neighbour of \<open>v\<close>, each has a
  positive count, and their counts sum to more than the count of \<open>v\<close>.
\<close>

theorem propose_success_edges:
  assumes "iteration_order (vertex_set es source) vs"
    and "DAG_init vs es source = Inr g"
    and "v \<in> vertex_set es source"
    and "propose_vprime_insertion g v w = Inr (True, new_edges, msg)"
  shows "\<exists>cnt chosen.
           path_counts g = Inr cnt
         \<and> new_edges = map (\<lambda>p. (p, Max (vertex_set es source) + 1, w)) chosen
         \<and> (\<forall>x \<in> vertex_set es source. x < Max (vertex_set es source) + 1)
         \<and> distinct chosen
         \<and> set chosen \<subseteq> vertex_set es source - neighbors_of g v
         \<and> (\<forall>p \<in> set chosen. 0 < the (cnt p))
         \<and> the (cnt v) < sum_list (map (\<lambda>p. the (cnt p)) chosen)"
proof -
  note c = constructed_facts[OF assms(1,2)]
  let ?V = "vertex_set es source"
  let ?cnt = "lift ?V (counts g)"
  obtain tot chosen where gr: "greedy (threshold g v) (cands g v) (0, []) = (tot, chosen)"
    by (cases "greedy (threshold g v) (cands g v) (0, [])")
  have th: "threshold g v = counts g v" "the (?cnt v) = counts g v"
    using assms(3) by (simp_all add: threshold_def c(2) lift_def)
  have big: "\<not> tot \<le> threshold g v"
    and ne: "new_edges = map (\<lambda>p. (p, Max ?V + 1, w)) chosen"
    using assms(4) unfolding propose_eq[OF c(1)] gr by (auto simp: c(2) split: if_splits)
  note cp = cands_props[OF c(1), of v]
  from greedy_chosen[OF cp(1) cp(2), of "threshold g v" 0 "[]"] gr
  have tot: "tot = sum_list (map (counts g) chosen)" and d: "distinct chosen"
    and sub: "set chosen \<subseteq> {u \<in> set (vertices g). u \<notin> neighbors_of g v}"
    and pos: "\<forall>u \<in> set chosen. 0 < counts g u"
    unfolding cp(3) by auto
  have ev: "the (?cnt p) = counts g p" if "p \<in> set chosen" for p
    using sub that by (auto simp: lift_def c(2))
  have meq: "map (\<lambda>p. the (?cnt p)) chosen = map (counts g) chosen"
    by (rule map_cong) (simp_all add: ev)
  have "counts g v < sum_list (map (counts g) chosen)"
    using big tot th(1) by simp
  then have s: "the (?cnt v) < sum_list (map (\<lambda>p. the (?cnt p)) chosen)"
    by (simp only: meq th(2))
  have "finite ?V" by (simp add: vertex_set_eq)
  then have mx: "\<forall>x \<in> ?V. x < Max ?V + 1"
    by (auto simp: less_Suc_eq_le intro: Max_ge le_less_trans[OF Max_ge])
  have "set chosen \<subseteq> ?V - neighbors_of g v" using sub by (auto simp: c(2))
  moreover have "\<forall>p \<in> set chosen. 0 < the (?cnt p)" using pos ev by simp
  ultimately show ?thesis using c(3) ne mx d s by blast
qed

theorem propose_success_edges_witness:
  "iteration_order (vertex_set enunciado 0) [0, 1, 2, 3, 4, 5, 6, 7, 8]
   \<and> DAG_init [0, 1, 2, 3, 4, 5, 6, 7, 8] enunciado 0 = Inr enunciado_dag
   \<and> 8 \<in> vertex_set enunciado 0
   \<and> propose_vprime_insertion enunciado_dag 8 0
        = Inr (True, [(8, 9, 0), (0, 9, 0)], Inserted 9 [8, 0] 11 10)
   \<and> (\<exists>cnt chosen. path_counts enunciado_dag = Inr cnt
         \<and> [(8, 9, 0), (0, 9, 0 :: int)] = map (\<lambda>p. (p, Max (vertex_set enunciado 0) + 1, 0)) chosen
         \<and> (\<forall>x \<in> vertex_set enunciado 0. x < Max (vertex_set enunciado 0) + 1)
         \<and> distinct chosen
         \<and> set chosen \<subseteq> vertex_set enunciado 0 - neighbors_of enunciado_dag 8
         \<and> (\<forall>p \<in> set chosen. 0 < the (cnt p))
         \<and> the (cnt 8) < sum_list (map (\<lambda>p. the (cnt p)) chosen))"
proof -
  have v8: "8 \<in> vertex_set enunciado 0" by (simp add: vertex_set_eq enunciado_def)
  note t = propose_success_edges[OF enunciado_order enunciado_init v8 enunciado_propose]
  show ?thesis
    using v8 enunciado_order enunciado_init enunciado_propose t by (intro conjI) assumption+
qed

lemma sorted_head_min:
  "sorted (map k (y # ys)) \<Longrightarrow> x \<in> set (y # ys) \<Longrightarrow> (k y :: int) \<le> k x"
  by auto

text \<open>
  C10. For an identifier \<open>v\<close> that is not a vertex of a constructed graph, the proposal
  succeeds with exactly one edge, from a vertex whose count is maximal to the new vertex
  (one more than the largest vertex), with the default weight.
\<close>

theorem propose_unknown_vertex:
  assumes "iteration_order (vertex_set es source) vs"
    and "DAG_init vs es source = Inr g"
    and "v \<notin> vertex_set es source"
  shows "\<exists>cnt p msg.
           path_counts g = Inr cnt
         \<and> propose_vprime_insertion g v w
             = Inr (True, [(p, Max (vertex_set es source) + 1, w)], msg)
         \<and> p \<in> vertex_set es source
         \<and> (\<forall>u \<in> vertex_set es source. the (cnt u) \<le> the (cnt p))"
proof -
  note c = constructed_facts[OF assms(1,2)]
  let ?V = "vertex_set es source"
  let ?cnt = "lift ?V (counts g)"
  have nb: "neighbors_of g v = {}"
    using assms(3) unfolding neighbors_of_eq c(4) by (force simp: vertex_set_eq)
  have th: "threshold g v = 0" using assms(3) by (simp add: threshold_def c(2))
  note cp = cands_props[OF c(1), of v]
  have fs: "fst ` set (cands g v) = ?V" using cp(3) by (simp add: nb c(2))
  have sV: "source \<in> ?V" by (simp add: vertex_set_eq)
  then have "cands g v \<noteq> []" using fs by auto
  then obtain p k rest where cs: "cands g v = (p, k) # rest"
    by (cases "cands g v") auto
  have k: "k = counts g p" using cp(1) by (simp add: cs)
  have pV: "p \<in> ?V" using fs by (force simp: cs)
  have mx: "counts g u \<le> counts g p" if "u \<in> ?V" for u
  proof -
    have "u \<in> fst ` set (cands g v)" using that fs by simp
    then obtain x where x: "x \<in> set (cands g v)" "fst x = u" by (auto simp: image_iff)
    have "- snd (p, k) \<le> - snd x"
      using cp(4) x(1) unfolding cs by (intro sorted_head_min[of "\<lambda>x. - snd x"]) simp_all
    then show ?thesis using cp(1) x k by simp
  qed
  have "counts g source = 1" using counts_src[OF c(1)] by (simp add: c(5))
  then have kp: "0 < k" using mx[OF sV] k by simp
  have gr: "greedy 0 (cands g v) (0, []) = (k, [p])"
    using kp by (simp add: cs Let_def)
  have pr: "propose_vprime_insertion g v w
      = Inr (True, [(p, Max ?V + 1, w)], Inserted (Max ?V + 1) [p] k 0)"
    using kp by (simp add: propose_eq[OF c(1)] th gr c(2))
  have "\<forall>u \<in> ?V. the (?cnt u) \<le> the (?cnt p)"
    using mx pV by (simp add: lift_def)
  then show ?thesis using c(3) pr pV by blast
qed

lemma enunciado_propose_unknown:
  "propose_vprime_insertion enunciado_dag 42 7 = Inr (True, [(8, 9, 7)], Inserted 9 [8] 10 0)"
  by (simp add: propose_vprime_insertion_def path_counts_def adj_def rev_adj_def build_adj_eq
      build_rev_adj_eq neighbors_of_def get_or_def max_of_def Let_def
      enunciado_dag_def enunciado_def)

theorem propose_unknown_vertex_witness:
  "iteration_order (vertex_set enunciado 0) [0, 1, 2, 3, 4, 5, 6, 7, 8]
   \<and> DAG_init [0, 1, 2, 3, 4, 5, 6, 7, 8] enunciado 0 = Inr enunciado_dag
   \<and> 42 \<notin> vertex_set enunciado 0
   \<and> propose_vprime_insertion enunciado_dag 42 7 = Inr (True, [(8, 9, 7)], Inserted 9 [8] 10 0)
   \<and> (\<exists>cnt p msg. path_counts enunciado_dag = Inr cnt
         \<and> propose_vprime_insertion enunciado_dag 42 7
             = Inr (True, [(p, Max (vertex_set enunciado 0) + 1, 7)], msg)
         \<and> p \<in> vertex_set enunciado 0
         \<and> (\<forall>u \<in> vertex_set enunciado 0. the (cnt u) \<le> the (cnt p)))"
proof -
  have v: "42 \<notin> vertex_set enunciado 0" by (simp add: vertex_set_eq enunciado_def)
  note t = propose_unknown_vertex[OF enunciado_order enunciado_init v, of 7]
  show ?thesis
    using v enunciado_order enunciado_init enunciado_propose_unknown t
    by (intro conjI) assumption+
qed

section \<open>Path enumeration: termination and the number of paths\<close>

lemma fwd_nonneg: "0 \<le> fwd a t L x"
proof (induction L arbitrary: x)
  case Nil
  show ?case by simp
next
  case (Cons u L)
  have "0 \<le> sum_list (map (\<lambda>e. fwd a t L (fst e)) (a u))"
    by (rule sum_list_nonneg) (simp add: Cons.IH)
  then show ?case using Cons.IH by simp
qed















section \<open>The fixture of the test suite, for every traversal order\<close>

lemma DAG_init_acyclic:
  assumes "iteration_order (vertex_set es source) vs" and "\<not> has_cycle es"
  shows "\<exists>g. DAG_init vs es source = Inr g"
  using DAG_init_cases[of vs es source] kahn_incomplete_cycle[OF assms(1)] assms(2) by blast

lemma enunciado_acyclic: "\<not> has_cycle enunciado"
  by (rule rank_acyclic[where r = "\<lambda>x. if x = 4 then 3 else if x = 3 then 4 else nat x"])
     (simp add: enunciado_def)

lemma enunciado_vertex_set: "vertex_set enunciado 0 = {0, 1, 2, 3, 4, 5, 6, 7, 8}"
  by (auto simp: vertex_set_eq enunciado_def)

lemma enunciado_counts_any_order:
  assumes "well_formed g" and "edges g = enunciado" and "src g = 0"
  shows "counts g 0 = 1" "counts g 1 = 1" "counts g 2 = 1" "counts g 3 = 3" "counts g 4 = 2"
    "counts g 5 = 1" "counts g 6 = 1" "counts g 7 = 4" "counts g 8 = 10"
proof -
  note r = counts_recurrence[OF assms(1), unfolded assms(2,3)]
  show c0: "counts g 0 = 1" using counts_src[OF assms(1)] by (simp add: assms(3))
  show c1: "counts g 1 = 1" using r[of 1] c0 by (simp add: enunciado_def)
  show c2: "counts g 2 = 1" using r[of 2] c0 by (simp add: enunciado_def)
  show c5: "counts g 5 = 1" using r[of 5] c0 by (simp add: enunciado_def)
  show c6: "counts g 6 = 1" using r[of 6] c0 by (simp add: enunciado_def)
  show c4: "counts g 4 = 2" using r[of 4] c0 c2 by (simp add: enunciado_def)
  show c3: "counts g 3 = 3" using r[of 3] c2 c4 by (simp add: enunciado_def)
  show c7: "counts g 7 = 4" using r[of 7] c4 c5 c6 by (simp add: enunciado_def)
  show "counts g 8 = 10" using r[of 8] c3 c4 c5 c7 by (simp add: enunciado_def)
qed

lemma enunciado_neighbors_any_order:
  "edges g = enunciado \<Longrightarrow> neighbors_of g 8 = {3, 4, 5, 7}"
  by (simp add: neighbors_of_def Let_def adj_def rev_adj_def build_adj_eq build_rev_adj_eq
      enunciado_def insert_commute)

text \<open>
  C8. For the fixture graph with source 0, whatever the traversal order of the vertex
  set: construction succeeds, and the proposal for vertex 8 with weight 0 succeeds with
  exactly two edges into the new vertex 9, the first from 8 itself and the second from
  one of 0, 1, 2, 6.
\<close>

theorem enunciado_insertion:
  assumes "iteration_order (vertex_set enunciado 0) vs"
  shows "\<exists>g p msg. DAG_init vs enunciado 0 = Inr g
           \<and> propose_vprime_insertion g 8 0 = Inr (True, [(8, 9, 0), (p, 9, 0)], msg)
           \<and> p \<in> {0, 1, 2, 6}"
proof -
  obtain g where g: "DAG_init vs enunciado 0 = Inr g"
    using DAG_init_acyclic[OF assms enunciado_acyclic] by blast
  note c = constructed_facts[OF assms g]
  note k = enunciado_counts_any_order[OF c(1) c(4) c(5)]
  have V: "set (vertices g) = {0, 1, 2, 3, 4, 5, 6, 7, 8}"
    by (simp add: c(2) enunciado_vertex_set)
  have nb: "neighbors_of g 8 = {3, 4, 5, 7}" by (rule enunciado_neighbors_any_order[OF c(4)])
  note cp = cands_props[OF c(1), of 8]
  have fs: "fst ` set (cands g 8) = {0, 1, 2, 6, 8}"
    unfolding cp(3) V nb by auto
  have val: "snd x = (if fst x = 8 then 10 else 1)" if "x \<in> set (cands g 8)" for x
  proof -
    have "fst x \<in> {0, 1, 2, 6, 8}" using that fs by blast
    then show ?thesis using cp(1) that k by auto
  qed
  have "length (cands g 8) = card (set (map fst (cands g 8)))"
    using distinct_card[OF cp(2)] by simp
  also have "\<dots> = 5" by (simp add: fs)
  finally have len: "length (cands g 8) = 5" .
  obtain x1 r1 where r1: "cands g 8 = x1 # r1" using len by (cases "cands g 8") auto
  obtain x2 rest where r2: "r1 = x2 # rest" using len r1 by (cases r1) auto
  have cs: "cands g 8 = x1 # x2 # rest" by (simp add: r1 r2)
  have m1: "x1 \<in> set (cands g 8)" and m2: "x2 \<in> set (cands g 8)" by (simp_all add: cs)
  have "8 \<in> fst ` set (cands g 8)" by (simp add: fs)
  then obtain y where y: "y \<in> set (cands g 8)" "fst y = 8" by (auto simp: image_iff)
  have so: "sorted (map (\<lambda>x. - snd x) (x1 # x2 # rest))" using cp(4) by (simp only: cs)
  have me: "y \<in> set (x1 # x2 # rest)" using y(1) by (simp only: cs)
  have "- snd x1 \<le> - snd y" by (rule sorted_head_min[OF so me])
  moreover have "snd y = 10" using val[OF y(1)] y(2) by simp
  ultimately have "10 \<le> snd x1" by simp
  then have x1: "fst x1 = 8" "snd x1 = 10"
    using val[OF m1] by (simp_all split: if_splits)
  have "fst x2 \<noteq> fst x1" using cp(2) by (simp add: cs)
  moreover have "fst x2 \<in> {0, 1, 2, 6, 8}" using fs m2 by blast
  ultimately have x2: "fst x2 \<in> {0, 1, 2, 6}" "snd x2 = 1"
    using val[OF m2] x1(1) by simp_all
  have th: "threshold g 8 = 10" by (simp add: threshold_def V k)
  have cs': "cands g 8 = (8, 10) # (fst x2, 1) # rest"
    using cs x1 x2(2) by (metis prod.collapse)
  have gr: "greedy 10 (cands g 8) (0, []) = (11, [8, fst x2])"
    by (simp add: cs' Let_def)
  have mx: "Max (set (vertices g)) = 8" by (simp add: V)
  have "propose_vprime_insertion g 8 0
      = Inr (True, [(8, 9, 0), (fst x2, 9, 0)], Inserted 9 [8, fst x2] 11 10)"
    by (simp add: propose_eq[OF c(1)] th gr mx)
  then show ?thesis using g x2(1) by blast
qed

theorem enunciado_insertion_witness:
  "iteration_order (vertex_set enunciado 0) [0, 1, 2, 3, 4, 5, 6, 7, 8]
   \<and> (\<exists>g p msg. DAG_init [0, 1, 2, 3, 4, 5, 6, 7, 8] enunciado 0 = Inr g
           \<and> propose_vprime_insertion g 8 0 = Inr (True, [(8, 9, 0), (p, 9, 0)], msg)
           \<and> p \<in> {0, 1, 2, 6})
   \<and> DAG_init [0, 1, 2, 3, 4, 5, 6, 7, 8] enunciado 0 = Inr enunciado_dag
   \<and> propose_vprime_insertion enunciado_dag 8 0
        = Inr (True, [(8, 9, 0), (0, 9, 0)], Inserted 9 [8, 0] 11 10)"
  using enunciado_insertion[OF enunciado_order] enunciado_order enunciado_init enunciado_propose
  by (intro conjI) assumption+

end
